theory Spec2Isabelle
  imports Main "HOL-Library.Word" "HOL-Library.Monad_Syntax" "HOL-Library.Multiset" "HOL-Library.Stream"
    "HOL-Library.Sublist"
begin

unbundle bit_operations_syntax

section \<open>CharSet (pkg/primitives/char\_set.go)\<close>

text \<open>
  A Go \<^verbatim>\<open>rune\<close> is a 32-bit signed integer. \<^verbatim>\<open>CharSet.Add\<close> and
  \<^verbatim>\<open>CharSet.Contains\<close> compare the rune with the two bounds before they subtract, so
  no arithmetic on a rune can overflow and a rune is modelled as an \<open>int\<close>.
  The struct has the fields \<^verbatim>\<open>bits uint32\<close> and \<^verbatim>\<open>count int\<close>.
\<close>

type_synonym rune = int

record CharSet =
  bits :: "32 word"
  count :: int

definition minChar :: rune where
  "minChar = 96"

definition maxChar :: rune where
  "maxChar = 122"

definition numChars :: int where
  "numChars = maxChar - minChar + 1"

text \<open>\<^verbatim>\<open>bits.OnesCount32\<close> of the Go standard library: the number of one bits.\<close>

definition OnesCount32 :: "32 word \<Rightarrow> int" where
  "OnesCount32 w = int (length (filter (bit w) [0..<32]))"

definition NewCharSet :: CharSet where
  "NewCharSet = \<lparr>bits = 0, count = 0\<rparr>"

datatype CharSetError = OutOfRange rune

text \<open>
  \<^verbatim>\<open>func (c *CharSet) Add(r rune) error\<close> mutates its receiver and returns an error
  value; the model returns the receiver after the call together with the error
  (\<open>None\<close> for \<^verbatim>\<open>nil\<close>).
\<close>

definition Add :: "CharSet \<Rightarrow> rune \<Rightarrow> CharSet \<times> CharSetError option" where
  "Add c r =
     (if r < minChar \<or> r > maxChar then (c, Some (OutOfRange r))
      else
        let bitPos = nat (r - minChar) in
        if bits c AND push_bit bitPos 1 = 0
        then (let b = bits c OR push_bit bitPos 1 in \<lparr>bits = b, count = OnesCount32 b\<rparr>, None)
        else (c, None))"

definition AddAll :: "CharSet \<Rightarrow> CharSet \<Rightarrow> CharSet" where
  "AddAll c other =
     (let b = bits c OR bits other in
      if b \<noteq> bits c then \<lparr>bits = b, count = OnesCount32 b\<rparr> else c)"

definition Contains :: "CharSet \<Rightarrow> rune \<Rightarrow> bool" where
  "Contains c r =
     (if r < minChar \<or> r > maxChar then False
      else bits c AND push_bit (nat (r - minChar)) 1 \<noteq> 0)"

definition IsFull :: "CharSet \<Rightarrow> bool" where
  "IsFull c = (count c = numChars)"

definition Capacity :: "CharSet \<Rightarrow> int" where
  "Capacity c = numChars"

definition Count :: "CharSet \<Rightarrow> int" where
  "Count c = count c"

text \<open>
  Modelled from the spec: \<^verbatim>\<open>CharSet.ContainsAll\<close> is called by
  \<^verbatim>\<open>Words.FilterAny\<close> but is not among the methods of char\_set.go; the spec lists
  \<^verbatim>\<open>containsAll(other)\<close> among the operations of the bitset, so it holds when every
  bit of \<open>other\<close> is a bit of the receiver.
\<close>

definition ContainsAll :: "CharSet \<Rightarrow> CharSet \<Rightarrow> bool" where
  "ContainsAll c other = (bits c AND bits other = bits other)"

section \<open>ConcreteLine (pkg/primitives/line.go)\<close>

text \<open>
  A dictionary word is a Go string over \<^verbatim>\<open>a..z\<close>, so each of its bytes is one rune
  and \<^verbatim>\<open>[]rune(word)\<close> is the list of its bytes; \<open>runes\<close> is that conversion.
  The field \<^verbatim>\<open>Words\<close> of the struct is \<open>LineWords\<close> here, since \<open>Words\<close> is
  also the name of a variant of PossibleLines.
\<close>

definition kBlocked :: rune where
  "kBlocked = 96"

definition runes :: "string \<Rightarrow> rune list" where
  "runes word = map of_char word"

record ConcreteLine =
  Line :: "rune list"
  LineWords :: "string list"

section \<open>PossibleLines (pkg/primitives/possible\_lines.go)\<close>

text \<open>
  The interface with its seven implementations is a datatype with one constructor per
  struct, each holding the struct's fields. Values are trees: two operations that return
  ``the receiver'' or ``a child'' return the tree itself. The source compares interface
  values by pointer (\<^verbatim>\<open>p != f\<close>, \<^verbatim>\<open>inner == b.lines\<close>) to find out whether a call
  returned its receiver; the model compares the trees.
  A panic of the source (an index out of range, an explicit \<^verbatim>\<open>panic\<close>) is the value
  \<open>None\<close>. Lengths and indices are natural numbers: the operations are modelled for
  the non-negative indices that the interface documents.
\<close>

datatype PossibleLines =
    Impossible nat
  | Words "string list" nat "CharSet list"
  | BlockBefore PossibleLines
  | BlockAfter PossibleLines
  | BlockBetween PossibleLines PossibleLines
  | Compound "PossibleLines list"
  | Definite ConcreteLine

record ChoiceStep =
  Choice :: PossibleLines
  Remaining :: PossibleLines

fun isImpossible :: "PossibleLines \<Rightarrow> bool" where
  "isImpossible (Impossible n) = True"
| "isImpossible p = False"

fun isCompound :: "PossibleLines \<Rightarrow> bool" where
  "isCompound (Compound ps) = True"
| "isCompound p = False"

text \<open>
  \<^verbatim>\<open>MakeImpossible\<close> returns the entry of a table of 25 memoised values, so it panics
  for a length above 24.
\<close>

definition MakeImpossible :: "nat \<Rightarrow> PossibleLines option" where
  "MakeImpossible numLetters =
     (if numLetters < 25 then Some (Impossible numLetters) else None)"

definition MakeDefinite :: "ConcreteLine \<Rightarrow> PossibleLines" where
  "MakeDefinite line = Definite line"

fun MakeWords :: "string list \<Rightarrow> nat \<Rightarrow> nat \<Rightarrow> PossibleLines option" where
  "MakeWords [] obscureIdx numLetters = MakeImpossible numLetters"
| "MakeWords [word] obscureIdx numLetters =
     Some (MakeDefinite \<lparr>Line = runes word, LineWords = [word]\<rparr>)"
| "MakeWords allWords obscureIdx numLetters = Some (Words allWords obscureIdx [])"

fun NumLetters :: "PossibleLines \<Rightarrow> nat option" where
  "NumLetters (Impossible numLetters) = Some numLetters"
| "NumLetters (Words [] obscureIdx letterMasks) = None"
| "NumLetters (Words (word # allWords) obscureIdx letterMasks) = Some (length word)"
| "NumLetters (BlockBefore lines) = do { n \<leftarrow> NumLetters lines; Some (1 + n) }"
| "NumLetters (BlockAfter lines) = do { n \<leftarrow> NumLetters lines; Some (1 + n) }"
| "NumLetters (BlockBetween first second) =
     do { a \<leftarrow> NumLetters first; b \<leftarrow> NumLetters second; Some (1 + a + b) }"
| "NumLetters (Compound []) = None"
| "NumLetters (Compound (p # possibilities)) = NumLetters p"
| "NumLetters (Definite line) = Some (length (Line line))"

text \<open>
  \<^verbatim>\<open>MaxPossibilities\<close> returns an \<^verbatim>\<open>int64\<close>: the product and the sum wrap around,
  which \<open>wrap64\<close> writes out on the integers.
\<close>

definition wrap64 :: "int \<Rightarrow> int" where
  "wrap64 x = (x + 2 ^ 63) mod 2 ^ 64 - 2 ^ 63"

fun MaxPossibilities :: "PossibleLines \<Rightarrow> int" where
  "MaxPossibilities (Impossible numLetters) = 0"
| "MaxPossibilities (Words allWords obscureIdx letterMasks) = int (length allWords)"
| "MaxPossibilities (BlockBefore lines) = MaxPossibilities lines"
| "MaxPossibilities (BlockAfter lines) = MaxPossibilities lines"
| "MaxPossibilities (BlockBetween first second) =
     wrap64 (MaxPossibilities first * MaxPossibilities second)"
| "MaxPossibilities (Compound possibilities) =
     foldl (\<lambda>sum p. wrap64 (sum + MaxPossibilities p)) 0 possibilities"
| "MaxPossibilities (Definite line) = 1"

text \<open>
  \<^verbatim>\<open>Iterate\<close> returns a sequence that calls \<^verbatim>\<open>yield\<close> once per line; the model is
  the list of the lines in the order they are yielded to a consumer that never stops.
\<close>

fun Iterate :: "PossibleLines \<Rightarrow> ConcreteLine list" where
  "Iterate (Impossible numLetters) = []"
| "Iterate (Words allWords obscureIdx letterMasks) =
     map (\<lambda>word. \<lparr>Line = runes word, LineWords = [word]\<rparr>) allWords"
| "Iterate (BlockBefore lines) =
     map (\<lambda>line. \<lparr>Line = [kBlocked] @ Line line, LineWords = LineWords line\<rparr>) (Iterate lines)"
| "Iterate (BlockAfter lines) =
     map (\<lambda>line. \<lparr>Line = Line line @ [kBlocked], LineWords = LineWords line\<rparr>) (Iterate lines)"
| "Iterate (BlockBetween first second) =
     concat (map (\<lambda>f. map (\<lambda>s. \<lparr>Line = (Line f @ [kBlocked]) @ Line s,
                                   LineWords = LineWords f @ LineWords s\<rparr>) (Iterate second))
                 (Iterate first))"
| "Iterate (Compound possibilities) = concat (map Iterate possibilities)"
| "Iterate (Definite line) = [line]"

text \<open>
  \<^verbatim>\<open>Compound.DefinitelyBlockedAt\<close> returns at the first child that is not blocked,
  so the children after it are not asked (\<open>DefinitelyBlockedAt_loop\<close>).
\<close>

fun DefinitelyBlockedAt :: "PossibleLines \<Rightarrow> nat \<Rightarrow> bool option"
  and DefinitelyBlockedAt_loop :: "PossibleLines list \<Rightarrow> nat \<Rightarrow> bool option" where
  "DefinitelyBlockedAt (Impossible numLetters) index = Some False"
| "DefinitelyBlockedAt (Words allWords obscureIdx letterMasks) index = Some False"
| "DefinitelyBlockedAt (BlockBefore lines) index =
     (if index = 0 then Some True else DefinitelyBlockedAt lines (index - 1))"
| "DefinitelyBlockedAt (BlockAfter lines) index =
     do { n \<leftarrow> NumLetters lines;
          if index = n then Some True else DefinitelyBlockedAt lines index }"
| "DefinitelyBlockedAt (BlockBetween first second) index =
     do { n \<leftarrow> NumLetters first;
          if index = n then Some True
          else if index < n then DefinitelyBlockedAt first index
          else DefinitelyBlockedAt second (index - n - 1) }"
| "DefinitelyBlockedAt (Compound possibilities) index =
     DefinitelyBlockedAt_loop possibilities index"
| "DefinitelyBlockedAt (Definite line) index =
     (if index < length (Line line) then Some (Line line ! index = kBlocked) else None)"
| "DefinitelyBlockedAt_loop [] index = Some True"
| "DefinitelyBlockedAt_loop (p # possibilities) index =
     do { b \<leftarrow> DefinitelyBlockedAt p index;
          if \<not> b then Some False else DefinitelyBlockedAt_loop possibilities index }"

subsection \<open>Constructors that collapse\<close>

text \<open>
  \<^verbatim>\<open>MakeCompound\<close> drops the impossible entries and splices the entries of a nested
  Compound in (\<open>MakeCompound_flatten\<close> is its second loop), then calls itself on the
  shorter list.
\<close>

fun MakeCompound_flatten :: "PossibleLines list \<Rightarrow> PossibleLines list" where
  "MakeCompound_flatten [] = []"
| "MakeCompound_flatten (Impossible n # possibilities) = MakeCompound_flatten possibilities"
| "MakeCompound_flatten (Compound ps # possibilities) = ps @ MakeCompound_flatten possibilities"
| "MakeCompound_flatten (p # possibilities) = p # MakeCompound_flatten possibilities"

lemma MakeCompound_flatten_size:
  "size_list size (MakeCompound_flatten ps) \<le> size_list size ps"
  by (induction ps rule: MakeCompound_flatten.induct) auto

lemma MakeCompound_flatten_smaller:
  "list_ex (\<lambda>p. isImpossible p \<or> isCompound p) ps \<Longrightarrow>
   size_list size (MakeCompound_flatten ps) < size_list size ps"
proof (induction ps rule: MakeCompound_flatten.induct)
  case (2 n possibilities)
  then show ?case using MakeCompound_flatten_size [of possibilities] by simp
next
  case (3 ps possibilities)
  then show ?case using MakeCompound_flatten_size [of possibilities] by simp
qed auto

function MakeCompound :: "PossibleLines list \<Rightarrow> nat \<Rightarrow> PossibleLines option" where
  "MakeCompound possibilities numLetters =
     (if length possibilities = 0 then MakeImpossible numLetters
      else if length possibilities = 1 then Some (hd possibilities)
      else if list_ex (\<lambda>p. isImpossible p \<or> isCompound p) possibilities
      then MakeCompound (MakeCompound_flatten possibilities) numLetters
      else Some (Compound possibilities))"
  by pat_completeness auto
termination
  by (relation "measure (\<lambda>(ps, n). size_list size ps)")
     (auto simp: MakeCompound_flatten_smaller)

declare MakeCompound.simps [simp del]

text \<open>
  The \<^verbatim>\<open>build\<close> methods: the impossible value of the receiver's length when a part
  became impossible, the receiver when no part changed, a new value otherwise.
\<close>

definition BlockBefore_build :: "PossibleLines \<Rightarrow> PossibleLines \<Rightarrow> PossibleLines option" where
  "BlockBefore_build lines inner =
     (if isImpossible inner then do { n \<leftarrow> NumLetters (BlockBefore lines); MakeImpossible n }
      else if inner = lines then Some (BlockBefore lines)
      else Some (BlockBefore inner))"

definition BlockAfter_build :: "PossibleLines \<Rightarrow> PossibleLines \<Rightarrow> PossibleLines option" where
  "BlockAfter_build lines inner =
     (if isImpossible inner then do { n \<leftarrow> NumLetters (BlockAfter lines); MakeImpossible n }
      else if inner = lines then Some (BlockAfter lines)
      else Some (BlockAfter inner))"

definition BlockBetween_build ::
  "PossibleLines \<Rightarrow> PossibleLines \<Rightarrow> PossibleLines \<Rightarrow> PossibleLines \<Rightarrow> PossibleLines option" where
  "BlockBetween_build first second f s =
     (if isImpossible f \<or> isImpossible s
      then do { n \<leftarrow> NumLetters (BlockBetween first second); MakeImpossible n }
      else if f = first \<and> s = second then Some (BlockBetween first second)
      else Some (BlockBetween f s))"

subsection \<open>Loops over the words of a Words value\<close>

text \<open>
  \<^verbatim>\<open>rune(word[index])\<close> panics when the word is too short.
  \<^verbatim>\<open>slices.ContainsFunc\<close> stops at the first element that satisfies the predicate.
\<close>

definition byteAt :: "string \<Rightarrow> nat \<Rightarrow> rune option" where
  "byteAt word index = (if index < length word then Some (of_char (word ! index)) else None)"

fun ContainsFunc :: "'a list \<Rightarrow> ('a \<Rightarrow> bool option) \<Rightarrow> bool option" where
  "ContainsFunc [] f = Some False"
| "ContainsFunc (x # xs) f = do { b \<leftarrow> f x; if b then Some True else ContainsFunc xs f }"

text \<open>
  The loop that \<^verbatim>\<open>Words.Filter\<close> and \<^verbatim>\<open>Words.FilterAny\<close> both end with: it keeps
  the words whose rune at \<open>index\<close> satisfies \<open>keep\<close> and counts those kept from before
  \<open>obscureIdx\<close>; \<open>idx\<close> is the position of the first word of the list in
  \<^verbatim>\<open>allWords\<close>.
\<close>

fun Words_filter_loop ::
  "(rune \<Rightarrow> bool) \<Rightarrow> nat \<Rightarrow> nat \<Rightarrow> nat \<Rightarrow> string list \<Rightarrow> (string list \<times> nat) option" where
  "Words_filter_loop keep index obscureIdx idx [] = Some ([], 0)"
| "Words_filter_loop keep index obscureIdx idx (word # allWords) =
     do { r \<leftarrow> byteAt word index;
          (filtered, newNumPreferred) \<leftarrow> Words_filter_loop keep index obscureIdx (idx + 1) allWords;
          Some (if keep r
                then (word # filtered, if idx < obscureIdx then newNumPreferred + 1 else newNumPreferred)
                else (filtered, newNumPreferred)) }"

text \<open>The loop of \<^verbatim>\<open>Words.RemoveWordOptions\<close>.\<close>

fun Words_remove_loop :: "string list \<Rightarrow> nat \<Rightarrow> nat \<Rightarrow> string list \<Rightarrow> string list \<times> nat" where
  "Words_remove_loop words obscureIdx idx [] = ([], 0)"
| "Words_remove_loop words obscureIdx idx (p # allWords) =
     (let (fp, fPreferred) = Words_remove_loop words obscureIdx (idx + 1) allWords in
      if p \<notin> set words
      then (p # fp, if idx < obscureIdx then fPreferred + 1 else fPreferred)
      else (fp, fPreferred))"

subsection \<open>Loops over the children of a Compound\<close>

text \<open>
  Each loop of \<^verbatim>\<open>Compound\<close> calls the operation on every child in turn and keeps two
  variables, whether a child has changed and the list built since the first change. A
  child's call panics or returns, and nothing is returned once a call has panicked, so the
  model first collects the results \<open>f\<close> of all children and then runs the loop over the
  pairs \<open>(p, f)\<close>; \<open>seen\<close> is \<^verbatim>\<open>c.possibilities[:ip]\<close>.
\<close>

fun Compound_Filter_loop ::
  "PossibleLines list \<Rightarrow> (PossibleLines \<times> PossibleLines) list \<Rightarrow> bool \<Rightarrow> PossibleLines list
   \<Rightarrow> bool \<times> PossibleLines list" where
  "Compound_Filter_loop seen [] anyChangeInSubParts filtered = (anyChangeInSubParts, filtered)"
| "Compound_Filter_loop seen ((p, f) # rest) anyChangeInSubParts filtered =
     (let firstChange = (\<not> anyChangeInSubParts \<and> p \<noteq> f);
          anyChange = (anyChangeInSubParts \<or> firstChange);
          filtered1 = (if firstChange then filtered @ seen else filtered);
          filtered2 = (if isImpossible f then filtered1
                       else if anyChange then filtered1 @ [f] else filtered1)
      in Compound_Filter_loop (seen @ [p]) rest anyChange filtered2)"

fun Compound_FilterAny_loop ::
  "PossibleLines list \<Rightarrow> (PossibleLines \<times> PossibleLines) list \<Rightarrow> bool \<Rightarrow> PossibleLines list
   \<Rightarrow> bool \<times> PossibleLines list" where
  "Compound_FilterAny_loop seen [] anyChangeInSubParts filtered = (anyChangeInSubParts, filtered)"
| "Compound_FilterAny_loop seen ((p, f) # rest) anyChangeInSubParts filtered =
     (let firstChange = (\<not> anyChangeInSubParts \<and> p \<noteq> f);
          anyChange = (anyChangeInSubParts \<or> firstChange);
          filtered1 = (if firstChange then filtered @ seen else filtered);
          filtered2 = (if isImpossible f then filtered1
                       else if \<not> anyChange then filtered1
                       else (case f of Compound ps \<Rightarrow> filtered1 @ ps | _ \<Rightarrow> filtered1 @ [f]))
      in Compound_FilterAny_loop (seen @ [p]) rest anyChange filtered2)"

fun Compound_RemoveWordOptions_loop ::
  "PossibleLines list \<Rightarrow> (PossibleLines \<times> PossibleLines) list \<Rightarrow> bool \<Rightarrow> PossibleLines list
   \<Rightarrow> bool \<times> PossibleLines list" where
  "Compound_RemoveWordOptions_loop seen [] anyChanged maybeFiltered = (anyChanged, maybeFiltered)"
| "Compound_RemoveWordOptions_loop seen ((p, f) # rest) anyChanged maybeFiltered =
     (if f = p \<and> \<not> anyChanged
      then Compound_RemoveWordOptions_loop (seen @ [p]) rest anyChanged maybeFiltered
      else
        let firstChange = (f \<noteq> p \<and> \<not> anyChanged);
            maybeFiltered1 = (if firstChange \<and> 0 < length seen then seen else maybeFiltered);
            maybeFiltered2 = (if \<not> isImpossible f then maybeFiltered1 @ [f] else maybeFiltered1)
        in Compound_RemoveWordOptions_loop (seen @ [p]) rest (anyChanged \<or> firstChange) maybeFiltered2)"

subsection \<open>Filter, FilterAny, RemoveWordOptions\<close>

fun Filter :: "PossibleLines \<Rightarrow> rune \<Rightarrow> nat \<Rightarrow> PossibleLines option" where
  "Filter (Impossible numLetters) constraint index = Some (Impossible numLetters)"
| "Filter (Words allWords obscureIdx letterMasks) constraint index =
     (let w = Words allWords obscureIdx letterMasks in
      if constraint = kBlocked then do { n \<leftarrow> NumLetters w; MakeImpossible n }
      else do {
        allMatch \<leftarrow>
          (if MaxPossibilities w > 0
           then do { anyMismatch \<leftarrow>
                       ContainsFunc allWords
                         (\<lambda>word. do { r \<leftarrow> byteAt word index; Some (r \<noteq> constraint) });
                     Some (\<not> anyMismatch) }
           else Some False);
        if allMatch then Some w
        else do {
          (filtered, newNumPreferred) \<leftarrow>
            Words_filter_loop (\<lambda>r. r = constraint) index obscureIdx 0 allWords;
          n \<leftarrow> NumLetters w;
          MakeWords filtered newNumPreferred n } })"
| "Filter (BlockBefore lines) constraint index =
     (if index = 0
      then (if constraint = kBlocked then Some (BlockBefore lines)
            else do { n \<leftarrow> NumLetters (BlockBefore lines); MakeImpossible n })
      else do { inner \<leftarrow> Filter lines constraint (index - 1); BlockBefore_build lines inner })"
| "Filter (BlockAfter lines) constraint index =
     do { m \<leftarrow> NumLetters lines;
          if index = m
          then (if constraint = kBlocked then Some (BlockAfter lines)
                else do { n \<leftarrow> NumLetters (BlockAfter lines); MakeImpossible n })
          else do { inner \<leftarrow> Filter lines constraint index; BlockAfter_build lines inner } }"
| "Filter (BlockBetween first second) constraint index =
     do { m \<leftarrow> NumLetters first;
          if index = m
          then (if constraint = kBlocked then Some (BlockBetween first second)
                else do { n \<leftarrow> NumLetters (BlockBetween first second); MakeImpossible n })
          else do {
            f \<leftarrow> (if index < m then Filter first constraint index else Some first);
            s \<leftarrow> (if index < m then Some second else Filter second constraint (index - m - 1));
            BlockBetween_build first second f s } }"
| "Filter (Compound possibilities) constraint index =
     do { fs \<leftarrow> those (map (\<lambda>p. Filter p constraint index) possibilities);
          let (anyChangeInSubParts, filtered) =
                Compound_Filter_loop [] (zip possibilities fs) False [] in
          if \<not> anyChangeInSubParts then Some (Compound possibilities)
          else do { n \<leftarrow> NumLetters (Compound possibilities); MakeCompound filtered n } }"
| "Filter (Definite line) constraint index =
     (if index < length (Line line)
      then (if constraint = Line line ! index then Some (Definite line)
            else do { n \<leftarrow> NumLetters (Definite line); MakeImpossible n })
      else None)"

text \<open>
  \<^verbatim>\<open>Words.FilterAny\<close> reads the cache \<^verbatim>\<open>letterMasks\<close> that \<^verbatim>\<open>CharsAt\<close>
  fills; a \<^verbatim>\<open>nil\<close> slice is the empty list.
\<close>

definition almostFull :: "CharSet \<Rightarrow> bool" where
  "almostFull constraint =
     (IsFull constraint \<or> (\<not> Contains constraint kBlocked \<and> Count constraint + 1 = Capacity constraint))"

fun FilterAny :: "PossibleLines \<Rightarrow> CharSet \<Rightarrow> nat \<Rightarrow> PossibleLines option" where
  "FilterAny (Impossible numLetters) constraint index = Some (Impossible numLetters)"
| "FilterAny (Words allWords obscureIdx letterMasks) constraint index =
     (let w = Words allWords obscureIdx letterMasks in
      if almostFull constraint then Some w
      else do {
        cached \<leftarrow>
          (if letterMasks \<noteq> []
           then (if index < length letterMasks
                 then Some (bits (letterMasks ! index) \<noteq> 0
                            \<and> ContainsAll constraint (letterMasks ! index))
                 else None)
           else Some False);
        if cached then Some w
        else do {
          anyMismatch \<leftarrow>
            ContainsFunc allWords
              (\<lambda>word. do { r \<leftarrow> byteAt word index; Some (\<not> Contains constraint r) });
          if \<not> anyMismatch then Some w
          else do {
            (filtered, newNumPreferred) \<leftarrow>
              Words_filter_loop (Contains constraint) index obscureIdx 0 allWords;
            n \<leftarrow> NumLetters w;
            MakeWords filtered newNumPreferred n } } })"
| "FilterAny (BlockBefore lines) constraint index =
     (if IsFull constraint then Some (BlockBefore lines)
      else if index = 0
      then (if Contains constraint kBlocked then Some (BlockBefore lines)
            else do { n \<leftarrow> NumLetters (BlockBefore lines); MakeImpossible n })
      else do { inner \<leftarrow> FilterAny lines constraint (index - 1); BlockBefore_build lines inner })"
| "FilterAny (BlockAfter lines) constraint index =
     (if IsFull constraint then Some (BlockAfter lines)
      else do {
        m \<leftarrow> NumLetters lines;
        if index = m
        then (if Contains constraint kBlocked then Some (BlockAfter lines)
              else do { n \<leftarrow> NumLetters (BlockAfter lines); MakeImpossible n })
        else do { inner \<leftarrow> FilterAny lines constraint index; BlockAfter_build lines inner } })"
| "FilterAny (BlockBetween first second) constraint index =
     (if IsFull constraint then Some (BlockBetween first second)
      else do {
        m \<leftarrow> NumLetters first;
        if index = m
        then (if Contains constraint kBlocked then Some (BlockBetween first second)
              else do { n \<leftarrow> NumLetters (BlockBetween first second); MakeImpossible n })
        else do {
          f \<leftarrow> (if index < m then FilterAny first constraint index else Some first);
          s \<leftarrow> (if index < m then Some second else FilterAny second constraint (index - m - 1));
          BlockBetween_build first second f s } })"
| "FilterAny (Compound possibilities) constraint index =
     (if IsFull constraint then Some (Compound possibilities)
      else do {
        fs \<leftarrow> those (map (\<lambda>p. FilterAny p constraint index) possibilities);
        let (anyChangeInSubParts, filtered) =
              Compound_FilterAny_loop [] (zip possibilities fs) False [] in
        if \<not> anyChangeInSubParts then Some (Compound possibilities)
        else if length filtered = 0
        then do { n \<leftarrow> NumLetters (Compound possibilities); MakeImpossible n }
        else if length filtered = 1 then Some (hd filtered)
        else do { n \<leftarrow> NumLetters (Compound possibilities); MakeCompound filtered n } })"
| "FilterAny (Definite line) constraint index =
     (if IsFull constraint then Some (Definite line)
      else if index < length (Line line)
      then (if Contains constraint (Line line ! index) then Some (Definite line)
            else do { n \<leftarrow> NumLetters (Definite line); MakeImpossible n })
      else None)"

fun RemoveWordOptions :: "PossibleLines \<Rightarrow> string list \<Rightarrow> PossibleLines option" where
  "RemoveWordOptions (Impossible numLetters) words = Some (Impossible numLetters)"
| "RemoveWordOptions (Words allWords obscureIdx letterMasks) words =
     (let w = Words allWords obscureIdx letterMasks in
      do { needsFiltering \<leftarrow>
             ContainsFunc words
               (\<lambda>word. do { n \<leftarrow> NumLetters w;
                             if length word \<noteq> n then Some False
                             else Some (word \<in> set allWords) });
           if \<not> needsFiltering then Some w
           else do {
             let (fp, fPreferred) = Words_remove_loop words obscureIdx 0 allWords;
             n \<leftarrow> NumLetters w;
             MakeWords fp fPreferred n } })"
| "RemoveWordOptions (BlockBefore lines) words =
     do { inner \<leftarrow> RemoveWordOptions lines words; BlockBefore_build lines inner }"
| "RemoveWordOptions (BlockAfter lines) words =
     do { inner \<leftarrow> RemoveWordOptions lines words; BlockAfter_build lines inner }"
| "RemoveWordOptions (BlockBetween first second) words =
     do { f \<leftarrow> RemoveWordOptions first words;
          s \<leftarrow> RemoveWordOptions second words;
          BlockBetween_build first second f s }"
| "RemoveWordOptions (Compound possibilities) words =
     do { fs \<leftarrow> those (map (\<lambda>p. RemoveWordOptions p words) possibilities);
          let (anyChanged, maybeFiltered) =
                Compound_RemoveWordOptions_loop [] (zip possibilities fs) False [] in
          if \<not> anyChanged then Some (Compound possibilities)
          else do { n \<leftarrow> NumLetters (Compound possibilities); MakeCompound maybeFiltered n } }"
| "RemoveWordOptions (Definite line) words =
     do { found \<leftarrow>
            ContainsFunc words
              (\<lambda>word. if length word \<noteq> length (Line line) then Some False
                       else Some (word \<in> set (LineWords line)));
          if found then do { n \<leftarrow> NumLetters (Definite line); MakeImpossible n }
          else Some (Definite line) }"

subsection \<open>MakeChoice\<close>

text \<open>
  Go's integer division truncates towards zero. The loop of \<^verbatim>\<open>Compound.MakeChoice\<close>
  leaves \<^verbatim>\<open>splitIdx\<close> at its initial value when it ends without a \<^verbatim>\<open>break\<close>.
\<close>

definition go_div :: "int \<Rightarrow> int \<Rightarrow> int" where
  "go_div a b = sgn a * sgn b * (\<bar>a\<bar> div \<bar>b\<bar>)"

fun Compound_MakeChoice_loop ::
  "int \<Rightarrow> nat \<Rightarrow> nat \<Rightarrow> int \<Rightarrow> PossibleLines list \<Rightarrow> nat \<Rightarrow> nat" where
  "Compound_MakeChoice_loop half len i acc [] splitIdx = splitIdx"
| "Compound_MakeChoice_loop half len i acc (p # rest) splitIdx =
     (let acc1 = wrap64 (acc + MaxPossibilities p) in
      if acc1 \<ge> half \<and> i + 1 < len then i + 1
      else Compound_MakeChoice_loop half len (i + 1) acc1 rest splitIdx)"

fun MakeChoice :: "PossibleLines \<Rightarrow> ChoiceStep option" where
  "MakeChoice (Impossible numLetters) = None"
| "MakeChoice (Words allWords obscureIdx letterMasks) =
     (let w = Words allWords obscureIdx letterMasks in
      if MaxPossibilities w \<le> 1 then None
      else
        let w1 = take (length allWords div 2) allWords;
            w2 = drop (length allWords div 2) allWords;
            (w1Idx, w2Idx) = (if obscureIdx < length w1 then (obscureIdx, 0)
                              else (length w1, obscureIdx - length w1))
        in do { n \<leftarrow> NumLetters w;
                choice \<leftarrow> MakeWords w1 w1Idx n;
                remaining \<leftarrow> MakeWords w2 w2Idx n;
                Some \<lparr>Choice = choice, Remaining = remaining\<rparr> })"
| "MakeChoice (BlockBefore lines) =
     do { c \<leftarrow> MakeChoice lines;
          Some \<lparr>Choice = BlockBefore (Choice c), Remaining = BlockBefore (Remaining c)\<rparr> }"
| "MakeChoice (BlockAfter lines) =
     do { c \<leftarrow> MakeChoice lines;
          Some \<lparr>Choice = BlockAfter (Choice c), Remaining = BlockAfter (Remaining c)\<rparr> }"
| "MakeChoice (BlockBetween first second) =
     (if MaxPossibilities first > MaxPossibilities second
      then do { firstChoice \<leftarrow> MakeChoice first;
                Some \<lparr>Choice = BlockBetween (Choice firstChoice) second,
                      Remaining = BlockBetween (Remaining firstChoice) second\<rparr> }
      else do { secondChoice \<leftarrow> MakeChoice second;
                Some \<lparr>Choice = BlockBetween first (Choice secondChoice),
                      Remaining = BlockBetween first (Remaining secondChoice)\<rparr> })"
| "MakeChoice (Compound possibilities) =
     (if length possibilities \<le> 1 then None
      else if MaxPossibilities (Compound possibilities) \<le> 1 then None
      else
        let total = foldl (\<lambda>sum p. wrap64 (sum + MaxPossibilities p)) 0 possibilities;
            half = go_div total 2;
            splitIdx = Compound_MakeChoice_loop half (length possibilities) 0 0 possibilities 1
        in do { n \<leftarrow> NumLetters (Compound possibilities);
                choice \<leftarrow> MakeCompound (take splitIdx possibilities) n;
                remaining \<leftarrow> MakeCompound (drop splitIdx possibilities) n;
                Some \<lparr>Choice = choice, Remaining = remaining\<rparr> })"
| "MakeChoice (Definite line) = None"

subsection \<open>Well-formed values\<close>

text \<open>
  The invariants of the data model: every line of a value has the same length, at most 24
  (the grid size bound, and the size of the table of impossible values); a Words holds at
  least two words of that length over \<^verbatim>\<open>a..z\<close>, and its cache of letter masks is unset
  or has one entry per cell; the part of a block variant is not impossible; a Compound has
  at least two children, none of them impossible and none a Compound.
\<close>

definition lowercase :: "string \<Rightarrow> bool" where
  "lowercase word = list_all (\<lambda>c. (97 :: int) \<le> of_char c \<and> (of_char c :: int) \<le> 122) word"

fun wf_len :: "nat \<Rightarrow> PossibleLines \<Rightarrow> bool" where
  "wf_len n (Impossible numLetters) = (numLetters = n)"
| "wf_len n (Words allWords obscureIdx letterMasks) =
     (2 \<le> length allWords \<and> list_all (\<lambda>word. length word = n \<and> lowercase word) allWords
      \<and> (letterMasks = [] \<or> length letterMasks = n))"
| "wf_len n (BlockBefore lines) = (0 < n \<and> wf_len (n - 1) lines \<and> \<not> isImpossible lines)"
| "wf_len n (BlockAfter lines) = (0 < n \<and> wf_len (n - 1) lines \<and> \<not> isImpossible lines)"
| "wf_len n (BlockBetween first second) =
     (case NumLetters first of
        None \<Rightarrow> False
      | Some a \<Rightarrow> a < n \<and> wf_len a first \<and> wf_len (n - a - 1) second
                  \<and> \<not> isImpossible first \<and> \<not> isImpossible second)"
| "wf_len n (Compound possibilities) =
     (2 \<le> length possibilities
      \<and> list_all (\<lambda>p. wf_len n p \<and> \<not> isImpossible p \<and> \<not> isCompound p) possibilities)"
| "wf_len n (Definite line) = (length (Line line) = n)"

definition well_formed :: "PossibleLines \<Rightarrow> bool" where
  "well_formed p = (case NumLetters p of None \<Rightarrow> False | Some n \<Rightarrow> n < 25 \<and> wf_len n p)"

section \<open>The generator (WordGenLib/Gen.cs)\<close>

text \<open>
  The C\# generator works on lists of scored lines. Its names that clash with the Go
  primitives carry a suffix: the field \<^verbatim>\<open>Line\<close> of \<^verbatim>\<open>ScoredLine\<close> is \<open>Line_s\<close>,
  the class \<^verbatim>\<open>CharSet\<close> is \<open>CharSet_cs\<close>, the fields of \<^verbatim>\<open>FinalGrid\<close> are
  \<open>Down_f\<close> and \<open>Across_f\<close>. An exception is a value \<open>exn\<close>; a function that can
  throw returns an \<open>option\<close> when nothing else is observable.
\<close>

datatype Direction = Horizontal | Vertical

datatype exn = KeyNotFound | MaxLengthTooLarge | SecondLengthTooSmall | Failed

record ScoredLine =
  Line_s :: string
  MaxLength :: int
  NumLetters_s :: int
  NumLettersOfCommonWords :: int

record GridState =
  Down :: "ScoredLine list list"
  Across :: "ScoredLine list list"

record FinalGrid =
  Down_f :: "ScoredLine list"
  Across_f :: "ScoredLine list"

record Generator =
  gridSize :: int
  commonWords :: "string list"
  obscureWords :: "string list"

definition BLOCKED :: char where
  "BLOCKED = CHR 0x60"

text \<open>
  The constructor groups the words of at most \<^verbatim>\<open>gridSize\<close> letters by length into a
  \<^verbatim>\<open>Dictionary\<close>; a length with no word has no key, and indexing the dictionary with
  it throws (\<open>None\<close>).
\<close>

definition wordsByLength :: "int \<Rightarrow> string list \<Rightarrow> int \<Rightarrow> string list option" where
  "wordsByLength bound words len =
     (let ws = filter (\<lambda>w. int (length w) = len) (filter (\<lambda>w. int (length w) \<le> bound) words)
      in if ws = [] then None else Some ws)"

definition commonWordsByLength :: "Generator \<Rightarrow> int \<Rightarrow> string list option" where
  "commonWordsByLength g = wordsByLength (gridSize g) (commonWords g)"

definition obscureWordsByLength :: "Generator \<Rightarrow> int \<Rightarrow> string list option" where
  "obscureWordsByLength g = wordsByLength (gridSize g) (obscureWords g)"

subsection \<open>Lazy sequences\<close>

text \<open>
  An iterator method (\<^verbatim>\<open>yield return\<close>) produces its elements one by one and may end,
  throw, or go on for ever. Its model is the list of the elements produced so far with the
  state it is in: \<open>Done\<close> when the sequence has ended, \<open>Threw e\<close> when it has thrown,
  \<open>Suspended\<close> when more nested enumerators would be needed than the bound allows, so that
  the sequence continues after the elements listed.
\<close>

datatype status = Done | Threw exn | Suspended

type_synonym 'a enum = "'a list \<times> status"

fun enum_append :: "'a enum \<Rightarrow> 'a enum \<Rightarrow> 'a enum" where
  "enum_append (xs, Done) e = (xs @ fst e, snd e)"
| "enum_append (xs, st) e = (xs, st)"

fun foreach_list :: "'a list \<Rightarrow> ('a \<Rightarrow> 'b enum) \<Rightarrow> 'b enum" where
  "foreach_list [] body = ([], Done)"
| "foreach_list (x # xs) body = enum_append (body x) (foreach_list xs body)"

definition foreach :: "'a enum \<Rightarrow> ('a \<Rightarrow> 'b enum) \<Rightarrow> 'b enum" where
  "foreach e body = enum_append (foreach_list (fst e) body) ([], snd e)"

subsection \<open>AllPossibleLines\<close>

text \<open>
  \<open>AllPossibleLines g fuel maxLength\<close> is the sequence of \<^verbatim>\<open>AllPossibleLines(maxLength)\<close>
  as far as \<open>fuel\<close> nested enumerators produce it.
\<close>

definition words_of :: "string list option \<Rightarrow> (string \<Rightarrow> ScoredLine) \<Rightarrow> ScoredLine enum" where
  "words_of entry mk = (case entry of None \<Rightarrow> ([], Threw KeyNotFound) | Some ws \<Rightarrow> (map mk ws, Done))"

fun AllPossibleLines :: "Generator \<Rightarrow> nat \<Rightarrow> int \<Rightarrow> ScoredLine enum" where
  "AllPossibleLines g 0 maxLength = ([], Suspended)"
| "AllPossibleLines g (Suc fuel) maxLength =
     (if maxLength > gridSize g then ([], Threw MaxLengthTooLarge)
      else if maxLength < 3 then ([], Done)
      else
        enum_append
          (words_of (commonWordsByLength g maxLength)
             (\<lambda>word. \<lparr>Line_s = word, MaxLength = maxLength, NumLetters_s = maxLength,
                        NumLettersOfCommonWords = maxLength\<rparr>))
       (enum_append
          (words_of (obscureWordsByLength g maxLength)
             (\<lambda>word. \<lparr>Line_s = word, MaxLength = maxLength, NumLetters_s = maxLength,
                        NumLettersOfCommonWords = 0\<rparr>))
       (enum_append
          (foreach (AllPossibleLines g fuel (maxLength - 1))
             (\<lambda>line. ([line\<lparr>Line_s := BLOCKED # Line_s line\<rparr>,
                         line\<lparr>Line_s := Line_s line @ [BLOCKED]\<rparr>], Done)))
          (foreach_list [3..gridSize g - 3 - 1]
             (\<lambda>i. let firstLength = i; secondLength = gridSize g - (i + 1) in
                  if secondLength < 3 then ([], Threw SecondLengthTooSmall)
                  else
                    foreach (AllPossibleLines g fuel firstLength)
                      (\<lambda>firstHalf.
                         foreach (AllPossibleLines g fuel secondLength)
                           (\<lambda>secondHalf.
                              ([\<lparr>Line_s = Line_s firstHalf @ [BLOCKED] @ Line_s secondHalf,
                                 MaxLength = max (MaxLength firstHalf) (MaxLength secondHalf),
                                 NumLetters_s = NumLetters_s firstHalf + NumLetters_s secondHalf,
                                 NumLettersOfCommonWords =
                                   NumLettersOfCommonWords firstHalf
                                   + NumLettersOfCommonWords secondHalf\<rparr>], Done))))))))"

subsection \<open>CharSet and GridDictionary\<close>

text \<open>
  The C\# \<^verbatim>\<open>CharSet\<close> is an array of 27 flags for the characters from \<^verbatim>\<open>`\<close> to
  \<^verbatim>\<open>z\<close>; a character outside that range indexes outside the array, which throws.
  \<^verbatim>\<open>GridDictionary\<close> is a square array of nullable values; an index outside it throws, and
  so does the indexer on an entry that is null.
\<close>

type_synonym CharSet_cs = "bool list"

definition CharSet_cs_new :: CharSet_cs where
  "CharSet_cs_new = replicate 27 False"

definition slot :: "char \<Rightarrow> nat option" where
  "slot c = (let k = int (of_char c :: nat) - 96 in if 0 \<le> k \<and> k < 27 then Some (nat k) else None)"

definition Add_cs :: "CharSet_cs \<Rightarrow> char \<Rightarrow> CharSet_cs option" where
  "Add_cs cs c = map_option (\<lambda>k. cs[k := True]) (slot c)"

definition Contains_cs :: "CharSet_cs \<Rightarrow> char \<Rightarrow> bool option" where
  "Contains_cs cs c = map_option (\<lambda>k. cs ! k) (slot c)"

record GridDictionary =
  size_gd :: nat
  values_gd :: "nat \<times> nat \<Rightarrow> CharSet_cs option"

definition GridDictionary_new :: "nat \<Rightarrow> GridDictionary" where
  "GridDictionary_new n = \<lparr>size_gd = n, values_gd = (\<lambda>kv. None)\<rparr>"

definition in_grid :: "GridDictionary \<Rightarrow> nat \<times> nat \<Rightarrow> bool" where
  "in_grid d kv = (fst kv < size_gd d \<and> snd kv < size_gd d)"

definition GetOrAddDefault :: "GridDictionary \<Rightarrow> nat \<times> nat \<Rightarrow> (CharSet_cs \<times> GridDictionary) option" where
  "GetOrAddDefault d kv =
     (if in_grid d kv then
        (case values_gd d kv of
           Some x \<Rightarrow> Some (x, d)
         | None \<Rightarrow> Some (CharSet_cs_new, d\<lparr>values_gd := (values_gd d)(kv \<mapsto> CharSet_cs_new)\<rparr>))
      else None)"

definition item :: "GridDictionary \<Rightarrow> nat \<times> nat \<Rightarrow> CharSet_cs option" where
  "item d kv = (if in_grid d kv then values_gd d kv else None)"

subsection \<open>Prefilter\<close>

text \<open>
  The three nested loops that collect, for every cell, the characters the constraint axis
  allows there. \<^verbatim>\<open>chars.Add\<close> changes the set held by the dictionary, so the changed set
  is stored back.
\<close>

fun add_chars :: "GridDictionary \<Rightarrow> nat \<Rightarrow> nat \<Rightarrow> string \<Rightarrow> GridDictionary option" where
  "add_chars available x y [] = Some available"
| "add_chars available x y (c # arr) = do {
     (chars, available') \<leftarrow> GetOrAddDefault available (x, y);
     chars' \<leftarrow> Add_cs chars c;
     add_chars (available'\<lparr>values_gd := (values_gd available')((x, y) \<mapsto> chars')\<rparr>) x (Suc y) arr
   }"

fun add_lines :: "GridDictionary \<Rightarrow> nat \<Rightarrow> ScoredLine list \<Rightarrow> GridDictionary option" where
  "add_lines available x [] = Some available"
| "add_lines available x (line # c) = do {
     available' \<leftarrow> add_chars available x 0 (Line_s line);
     add_lines available' x c
   }"

fun add_entries :: "GridDictionary \<Rightarrow> nat \<Rightarrow> ScoredLine list list \<Rightarrow> GridDictionary option" where
  "add_entries available x [] = Some available"
| "add_entries available x (c # constraint) = do {
     available' \<leftarrow> add_lines available x c;
     add_entries available' (Suc x) constraint
   }"

text \<open>The predicate of the \<^verbatim>\<open>Where\<close>: the loop over the cells of a line of row \<open>y\<close>.\<close>

fun line_available :: "GridDictionary \<Rightarrow> nat \<Rightarrow> nat \<Rightarrow> string \<Rightarrow> bool option" where
  "line_available available y x [] = Some True"
| "line_available available y x (c # line) = do {
     chars \<leftarrow> item available (x, y);
     b \<leftarrow> Contains_cs chars c;
     if \<not> b then Some False else line_available available y (Suc x) line
   }"

fun Where_opt :: "('a \<Rightarrow> bool option) \<Rightarrow> 'a list \<Rightarrow> 'a list option" where
  "Where_opt pred [] = Some []"
| "Where_opt pred (x # xs) = do {
     b \<leftarrow> pred x;
     ys \<leftarrow> Where_opt pred xs;
     Some (if b then x # ys else ys)
   }"

fun Select_index :: "('a \<Rightarrow> nat \<Rightarrow> 'b option) \<Rightarrow> nat \<Rightarrow> 'a list \<Rightarrow> 'b list option" where
  "Select_index f y [] = Some []"
| "Select_index f y (x # xs) = do {
     v \<leftarrow> f x y;
     vs \<leftarrow> Select_index f (Suc y) xs;
     Some (v # vs)
   }"

definition any_empty :: "'a list list \<Rightarrow> bool" where
  "any_empty axis = list_ex (\<lambda>r. length r = 0) axis"

definition Prefilter :: "GridState \<Rightarrow> Direction \<Rightarrow> GridState option" where
  "Prefilter state direction =
     (let toFilter = (if direction = Horizontal then Across state else Down state);
          constraint = (if direction = Horizontal then Down state else Across state)
      in if any_empty toFilter \<or> any_empty constraint then Some state
         else do {
           available \<leftarrow> add_entries (GridDictionary_new (length (Across state))) 0 constraint;
           filtered \<leftarrow>
             Select_index
               (\<lambda>possibles y. Where_opt (\<lambda>line. line_available available y 0 (Line_s line)) possibles)
               0 toFilter;
           Some (if direction = Horizontal then state\<lparr>Across := filtered\<rparr>
                 else state\<lparr>Down := filtered\<rparr>)
         })"

subsection \<open>Changed and the propagation loop\<close>

definition nth_opt :: "'a list \<Rightarrow> nat \<Rightarrow> 'a option" where
  "nth_opt xs i = (if i < length xs then Some (xs ! i) else None)"

fun Changed_loop :: "GridState \<Rightarrow> GridState \<Rightarrow> nat list \<Rightarrow> bool option" where
  "Changed_loop bef aft [] = Some False"
| "Changed_loop bef aft (i # is) = do {
     bd \<leftarrow> nth_opt (Down bef) i;
     ad \<leftarrow> nth_opt (Down aft) i;
     if length bd \<noteq> length ad then Some True
     else do {
       ba \<leftarrow> nth_opt (Across bef) i;
       aa \<leftarrow> nth_opt (Across aft) i;
       if length ba \<noteq> length aa then Some True
       else Changed_loop bef aft is
     }
   }"

definition Changed :: "GridState \<Rightarrow> GridState \<Rightarrow> bool option" where
  "Changed bef aft = Changed_loop bef aft [0..<length (Down bef)]"

text \<open>
  The loop at the head of \<^verbatim>\<open>AllPossibleGrids\<close>: at most four passes in alternating
  directions, left as soon as a pass other than the first changes no entry's length.
\<close>

function Prefilter_loop :: "nat \<Rightarrow> Direction \<Rightarrow> GridState \<Rightarrow> GridState option" where
  "Prefilter_loop tries direction root =
     (if tries < 4 then do {
        newState \<leftarrow> Prefilter root direction;
        changed \<leftarrow> Changed root newState;
        if \<not> changed \<and> tries + 1 > 1 then Some root
        else Prefilter_loop (tries + 1) (if direction = Vertical then Horizontal else Vertical) newState
      }
      else Some root)"
  by pat_completeness auto
termination
  by (relation "measure (\<lambda>(tries, direction, root). 4 - tries)") auto


declare Prefilter_loop.simps [simp del]

text \<open>
  A square grid of size \<open>n\<close>: both axes have \<open>n\<close> entries, and every line has \<open>n\<close>
  cells holding characters from \<^verbatim>\<open>`\<close> to \<^verbatim>\<open>z\<close>.
\<close>

definition wf_line :: "nat \<Rightarrow> ScoredLine \<Rightarrow> bool" where
  "wf_line n l = (length (Line_s l) = n \<and> list_all (\<lambda>c. slot c \<noteq> None) (Line_s l))"

definition wf_axis :: "nat \<Rightarrow> ScoredLine list list \<Rightarrow> bool" where
  "wf_axis n axis = (length axis = n \<and> list_all (list_all (wf_line n)) axis)"

definition wf_state :: "nat \<Rightarrow> GridState \<Rightarrow> bool" where
  "wf_state n s = (wf_axis n (Down s) \<and> wf_axis n (Across s))"

text \<open>Every entry of \<open>s'\<close> holds only lines of the matching entry of \<open>s\<close>, in their order.\<close>

definition not_looser :: "GridState \<Rightarrow> GridState \<Rightarrow> bool" where
  "not_looser s' s = (list_all2 subseq (Down s') (Down s) \<and> list_all2 subseq (Across s') (Across s))"

text \<open>A state of a grid of size 2.\<close>

definition sl :: "string \<Rightarrow> ScoredLine" where
  "sl w = \<lparr>Line_s = w, MaxLength = 2, NumLetters_s = 2, NumLettersOfCommonWords = 2\<rparr>"

definition st1 :: GridState where
  "st1 = \<lparr>Down = [[sl ''ad'', sl ''xy''], [sl ''be'', sl ''bf'', sl ''ce'', sl ''cf'']],
          Across = [[sl ''ab'', sl ''ac'', sl ''zz''], [sl ''de'', sl ''df'']]\<rparr>"

section \<open>Properties of CharSet\<close>

lemma and_bit_eq_0_iff: "(w :: 32 word) AND 2 ^ n = 0 \<longleftrightarrow> \<not> bit w n"
  by (simp add: and_exp_eq_0_iff_not_bit)

lemma Contains_iff:
  "Contains c r \<longleftrightarrow> minChar \<le> r \<and> r \<le> maxChar \<and> bit (bits c) (nat (r - minChar))"
  by (auto simp: Contains_def and_bit_eq_0_iff)

lemma bit_or_single:
  "n < 32 \<Longrightarrow> bit ((w :: 32 word) OR 2 ^ n) m \<longleftrightarrow> bit w m \<or> m = n"
  by (auto simp: bit_or_iff bit_exp_iff)

text \<open>
  C9. \<^verbatim>\<open>s.Add(r)\<close> returns an error exactly when \<open>r\<close> lies outside
  \<^verbatim>\<open>'`'..'z'\<close> (96..122). When it errors the set is unchanged; when it succeeds
  \<^verbatim>\<open>s.Contains(r)\<close> holds afterwards and the membership of every other rune is what
  it was before.
\<close>

theorem CharSet_Add_spec:
  "(snd (Add s r) \<noteq> None \<longleftrightarrow> r < 96 \<or> 122 < r)
   \<and> (snd (Add s r) \<noteq> None \<longrightarrow> fst (Add s r) = s)
   \<and> (snd (Add s r) = None \<longrightarrow>
        Contains (fst (Add s r)) r
        \<and> (\<forall>r'. r' \<noteq> r \<longrightarrow> Contains (fst (Add s r)) r' = Contains s r'))"
proof -
  have err: "snd (Add s r) \<noteq> None \<longleftrightarrow> r < 96 \<or> 122 < r"
    by (simp add: Add_def minChar_def maxChar_def Let_def)
  have same: "snd (Add s r) \<noteq> None \<longrightarrow> fst (Add s r) = s"
    by (simp add: Add_def Let_def)
  have ok: "Contains (fst (Add s r)) r
      \<and> (\<forall>r'. r' \<noteq> r \<longrightarrow> Contains (fst (Add s r)) r' = Contains s r')"
    if "snd (Add s r) = None"
  proof -
    from that err have range: "96 \<le> r" "r \<le> 122" by auto
    define n where "n = nat (r - minChar)"
    have n: "n < 32" using range by (simp add: n_def minChar_def)
    have bits': "bit (bits (fst (Add s r))) m \<longleftrightarrow> bit (bits s) m \<or> m = n" for m
      using range n
      by (auto simp: Add_def Let_def minChar_def maxChar_def n_def and_bit_eq_0_iff bit_or_single)
    have here: "Contains (fst (Add s r)) r"
      using range by (simp add: Contains_iff bits' n_def minChar_def maxChar_def)
    have other: "Contains (fst (Add s r)) r' = Contains s r'" if "r' \<noteq> r" for r'
    proof -
      have "minChar \<le> r' \<Longrightarrow> nat (r' - minChar) \<noteq> n"
        using that range by (simp add: n_def minChar_def)
      then show ?thesis by (auto simp: Contains_iff bits')
    qed
    from here other show ?thesis by blast
  qed
  from err same ok show ?thesis by blast
qed

theorem CharSet_Add_spec_witness:
  "snd (Add NewCharSet 99) = None \<and> Contains (fst (Add NewCharSet 99)) 99
   \<and> Contains (fst (Add NewCharSet 99)) 100 = Contains NewCharSet 100
   \<and> snd (Add NewCharSet 65) \<noteq> None \<and> fst (Add NewCharSet 65) = NewCharSet"
  using CharSet_Add_spec [of NewCharSet 99] CharSet_Add_spec [of NewCharSet 65]
  by simp

section \<open>Properties of PossibleLines\<close>

subsection \<open>Lengths, constructors and loops\<close>

lemma those_map_Some:
  "(\<And>x. x \<in> set xs \<Longrightarrow> f x = Some (g x)) \<Longrightarrow> those (map f xs) = Some (map g xs)"
  by (induction xs) auto

lemma wf_len_NumLetters: "wf_len n p \<Longrightarrow> NumLetters p = Some n"
proof (induction p arbitrary: n)
  case (Impossible x)
  then show ?case by simp
next
  case (Words allWords obscureIdx letterMasks)
  then show ?case by (cases allWords) auto
next
  case (BlockBefore p)
  from BlockBefore.prems have "wf_len (n - 1) p" "0 < n" by auto
  with BlockBefore.IH [of "n - 1"] show ?case by simp
next
  case (BlockAfter p)
  from BlockAfter.prems have "wf_len (n - 1) p" "0 < n" by auto
  with BlockAfter.IH [of "n - 1"] show ?case by simp
next
  case (BlockBetween p1 p2)
  from BlockBetween.prems obtain a where a: "NumLetters p1 = Some a" "a < n"
    "wf_len (n - a - 1) p2"
    by (auto split: option.splits)
  with BlockBetween.IH(2) [of "n - a - 1"] show ?case by simp
next
  case (Compound ps)
  then show ?case by (cases ps) auto
next
  case (Definite x)
  then show ?case by simp
qed

lemma wf_len_Line_length:
  "wf_len n p \<Longrightarrow> l \<in> set (Iterate p) \<Longrightarrow> length (Line l) = n"
proof (induction p arbitrary: n l)
  case (Impossible x)
  then show ?case by simp
next
  case (Words allWords obscureIdx letterMasks)
  then show ?case by (auto simp: list_all_iff runes_def)
next
  case (BlockBefore p)
  from BlockBefore.prems obtain l' where l': "l' \<in> set (Iterate p)" "Line l = [kBlocked] @ Line l'"
    by auto
  from BlockBefore.prems have "wf_len (n - 1) p" "0 < n" by auto
  with BlockBefore.IH [of "n - 1" l'] l' show ?case by simp
next
  case (BlockAfter p)
  from BlockAfter.prems obtain l' where l': "l' \<in> set (Iterate p)" "Line l = Line l' @ [kBlocked]"
    by auto
  from BlockAfter.prems have "wf_len (n - 1) p" "0 < n" by auto
  with BlockAfter.IH [of "n - 1" l'] l' show ?case by simp
next
  case (BlockBetween p1 p2)
  from BlockBetween.prems obtain a where a: "NumLetters p1 = Some a" "a < n"
    "wf_len a p1" "wf_len (n - a - 1) p2"
    by (auto split: option.splits)
  from BlockBetween.prems obtain f s where fs: "f \<in> set (Iterate p1)" "s \<in> set (Iterate p2)"
    "Line l = (Line f @ [kBlocked]) @ Line s"
    by auto
  from BlockBetween.IH(1) [OF a(3) fs(1)] BlockBetween.IH(2) [OF a(4) fs(2)] a(2) fs(3)
  show ?case by simp
next
  case (Compound ps)
  from Compound.prems obtain p where p: "p \<in> set ps" "l \<in> set (Iterate p)" by auto
  with Compound.prems have "wf_len n p" by (auto simp: list_all_iff)
  with Compound.IH p show ?case by blast
next
  case (Definite x)
  then show ?case by simp
qed

lemma MakeWords_Iterate:
  "n < 25 \<Longrightarrow> \<exists>q. MakeWords ws k n = Some q
     \<and> Iterate q = map (\<lambda>word. \<lparr>Line = runes word, LineWords = [word]\<rparr>) ws"
  by (cases "(ws, k, n)" rule: MakeWords.cases) (auto simp: MakeImpossible_def MakeDefinite_def)

lemma Iterate_flatten:
  "concat (map Iterate (MakeCompound_flatten ps)) = concat (map Iterate ps)"
  by (induction ps rule: MakeCompound_flatten.induct) auto

lemma MakeCompound_Nil: "MakeCompound [] n = MakeImpossible n"
  by (subst MakeCompound.simps) simp

lemma MakeCompound_single: "MakeCompound [p] n = Some p"
  by (subst MakeCompound.simps) simp

lemma MakeCompound_many:
  "2 \<le> length ps \<Longrightarrow> MakeCompound ps n =
     (if list_ex (\<lambda>p. isImpossible p \<or> isCompound p) ps
      then MakeCompound (MakeCompound_flatten ps) n else Some (Compound ps))"
  by (subst MakeCompound.simps) auto

lemma MakeCompound_Iterate:
  "n < 25 \<Longrightarrow> \<exists>q. MakeCompound ps n = Some q \<and> Iterate q = concat (map Iterate ps)"
proof (induction ps n rule: MakeCompound.induct)
  case (1 possibilities numLetters)
  consider "possibilities = []" | p where "possibilities = [p]" | "2 \<le> length possibilities"
    by (cases possibilities rule: remdups_adj.cases) auto
  then show ?case
  proof cases
    case 1
    then show ?thesis using \<open>numLetters < 25\<close> by (simp add: MakeCompound_Nil MakeImpossible_def)
  next
    case 2
    then show ?thesis by (simp add: MakeCompound_single)
  next
    case 3
    show ?thesis
    proof (cases "list_ex (\<lambda>p. isImpossible p \<or> isCompound p) possibilities")
      case True
      from 3 have ne: "possibilities \<noteq> []" "length possibilities \<noteq> 1" by auto
      from 1(1) [OF _ _ True \<open>numLetters < 25\<close>] ne 3 True show ?thesis
        by (simp add: MakeCompound_many Iterate_flatten)
    next
      case False
      with 3 show ?thesis by (simp add: MakeCompound_many)
    qed
  qed
qed

lemma ContainsFunc_total:
  "(\<And>x. x \<in> set xs \<Longrightarrow> f x = Some (g x)) \<Longrightarrow> ContainsFunc xs f = Some (\<exists>x\<in>set xs. g x)"
  by (induction xs) auto

lemma Words_filter_loop_total:
  "(\<And>w. w \<in> set ws \<Longrightarrow> i < length w) \<Longrightarrow>
   \<exists>k. Words_filter_loop keep i oi idx ws
        = Some (filter (\<lambda>w. keep (of_char (w ! i))) ws, k)"
proof (induction ws arbitrary: idx)
  case Nil
  then show ?case by simp
next
  case (Cons a ws)
  from Cons.IH [of "idx + 1"] Cons.prems obtain k where
    "Words_filter_loop keep i oi (idx + 1) ws = Some (filter (\<lambda>w. keep (of_char (w ! i))) ws, k)"
    by auto
  then show ?case using Cons.prems by (auto simp: byteAt_def)
qed

lemma isImpossible_Iterate: "isImpossible f \<Longrightarrow> Iterate f = []"
  by (cases f) auto

lemma Compound_Filter_loop_spec:
  "length ps = length fs \<Longrightarrow>
   Compound_Filter_loop seen (zip ps fs) any filtered = (any', filtered') \<Longrightarrow>
   (any' \<longleftrightarrow> any \<or> ps \<noteq> fs)
   \<and> (any' \<longrightarrow> concat (map Iterate filtered')
         = concat (map Iterate (if any then filtered else filtered @ seen)) @ concat (map Iterate fs))"
proof (induction ps fs arbitrary: seen any filtered rule: list_induct2)
  case Nil
  then show ?case by auto
next
  case (Cons p ps f fs)
  consider (changed) "any" | (first) "\<not> any" "p \<noteq> f" | (same) "\<not> any" "p = f"
    by blast
  then show ?case
  proof cases
    case changed
    define f2 where "f2 = (if isImpossible f then filtered else filtered @ [f])"
    have "Compound_Filter_loop (seen @ [p]) (zip ps fs) True f2 = (any', filtered')"
      using Cons.prems changed by (cases "isImpossible f") (simp_all add: f2_def)
    from Cons.IH [OF this] changed show ?thesis
      by (simp add: f2_def isImpossible_Iterate)
  next
    case first
    define f2 where "f2 = (if isImpossible f then filtered @ seen else (filtered @ seen) @ [f])"
    have "Compound_Filter_loop (seen @ [p]) (zip ps fs) True f2 = (any', filtered')"
      using Cons.prems first by (cases "isImpossible f") (simp_all add: f2_def)
    from Cons.IH [OF this] first show ?thesis
      by (simp add: f2_def isImpossible_Iterate)
  next
    case same
    have "Compound_Filter_loop (seen @ [p]) (zip ps fs) False filtered = (any', filtered')"
      using Cons.prems same by (cases "isImpossible f") simp_all
    from Cons.IH [OF this] same show ?thesis
      by simp
  qed
qed


lemma concat_map_if_filter:
  "concat (map (\<lambda>x. if P x then g x else []) xs) = concat (map g (filter P xs))"
  by (induction xs) auto

lemma concat_map_Nil: "concat (map (\<lambda>x. []) xs) = []"
  by (induction xs) auto

lemma BlockBefore_build_Iterate:
  "NumLetters (BlockBefore lines) = Some n \<Longrightarrow> n < 25 \<Longrightarrow>
   \<exists>q. BlockBefore_build lines inner = Some q \<and> Iterate q = Iterate (BlockBefore inner)"
  by (cases "isImpossible inner")
     (auto simp: BlockBefore_build_def MakeImpossible_def isImpossible_Iterate)

lemma BlockAfter_build_Iterate:
  "NumLetters (BlockAfter lines) = Some n \<Longrightarrow> n < 25 \<Longrightarrow>
   \<exists>q. BlockAfter_build lines inner = Some q \<and> Iterate q = Iterate (BlockAfter inner)"
  by (cases "isImpossible inner")
     (auto simp: BlockAfter_build_def MakeImpossible_def isImpossible_Iterate)

lemma BlockBetween_build_Iterate:
  "NumLetters (BlockBetween first second) = Some n \<Longrightarrow> n < 25 \<Longrightarrow>
   \<exists>q. BlockBetween_build first second f s = Some q \<and> Iterate q = Iterate (BlockBetween f s)"
  by (cases "isImpossible f"; cases "isImpossible s")
     (auto simp: BlockBetween_build_def MakeImpossible_def isImpossible_Iterate concat_map_Nil)

lemma lowercase_nth:
  "lowercase w \<Longrightarrow> i < length w \<Longrightarrow> (97 :: int) \<le> of_char (w ! i) \<and> (of_char (w ! i) :: int) \<le> 122"
  by (simp add: lowercase_def list_all_length)

lemma Filter_Words:
  assumes wf: "wf_len n (Words ws oi lm)" and n: "n < 25" and i: "i < n"
  shows "\<exists>q. Filter (Words ws oi lm) ch i = Some q
          \<and> Iterate q = filter (\<lambda>l. Line l ! i = ch) (Iterate (Words ws oi lm))"
proof -
  let ?mk = "\<lambda>word. \<lparr>Line = runes word, LineWords = [word]\<rparr>"
  let ?P = "\<lambda>l. Line l ! i = ch"
  from wf have len: "\<And>w. w \<in> set ws \<Longrightarrow> length w = n"
    and low: "\<And>w. w \<in> set ws \<Longrightarrow> lowercase w" and two: "2 \<le> length ws"
    by (auto simp: list_all_iff)
  have NL: "NumLetters (Words ws oi lm) = Some n" using wf by (rule wf_len_NumLetters)
  from two have ne: "ws \<noteq> []" by auto
  have nth: "Line (?mk w) ! i = of_char (w ! i)" if "w \<in> set ws" for w
    using len [OF that] i by (simp add: runes_def)
  have filt: "filter ?P (map ?mk ws) = map ?mk (filter (\<lambda>w. of_char (w ! i) = ch) ws)"
    unfolding filter_map using nth by (auto simp: o_def intro!: arg_cong [where f = "map ?mk"] filter_cong)
  show ?thesis
  proof (cases "ch = kBlocked")
    case True
    have "of_char (w ! i) \<noteq> ch" if "w \<in> set ws" for w
      using lowercase_nth [OF low [OF that], of i] len [OF that] i True by (simp add: kBlocked_def)
    then have "filter (\<lambda>w. of_char (w ! i) = ch) ws = []"
      by (simp add: filter_empty_conv)
    then show ?thesis using True NL n filt by (simp add: MakeImpossible_def)
  next
    case False
    have cf: "ContainsFunc ws (\<lambda>word. do { r \<leftarrow> byteAt word i; Some (r \<noteq> ch) })
        = Some (\<exists>w\<in>set ws. of_char (w ! i) \<noteq> ch)"
      by (rule ContainsFunc_total) (use len i in \<open>simp add: byteAt_def\<close>)
    show ?thesis
    proof (cases "\<exists>w\<in>set ws. of_char (w ! i) \<noteq> ch")
      case mism: True
      from Words_filter_loop_total [of ws i "\<lambda>r. r = ch" oi 0] len i obtain k where
        k: "Words_filter_loop (\<lambda>r. r = ch) i oi 0 ws = Some (filter (\<lambda>w. of_char (w ! i) = ch) ws, k)"
        by auto
      from MakeWords_Iterate [OF n, of "filter (\<lambda>w. of_char (w ! i) = ch) ws" k] obtain q where
        q: "MakeWords (filter (\<lambda>w. of_char (w ! i) = ch) ws) k n = Some q"
           "Iterate q = map ?mk (filter (\<lambda>w. of_char (w ! i) = ch) ws)"
        by blast
      show ?thesis using False cf mism k q NL ne filt by simp
    next
      case nomism: False
      then have "filter (\<lambda>w. of_char (w ! i) = ch) ws = ws" by (auto simp: filter_id_conv)
      then show ?thesis using False cf nomism ne filt by simp
    qed
  qed
qed

subsection \<open>Filter\<close>

lemma filter_concat_map_cong:
  "(\<And>x. x \<in> set xs \<Longrightarrow> filter P (g x) = h x) \<Longrightarrow>
   filter P (concat (map g xs)) = concat (map h xs)"
  by (induction xs) auto

lemma Filter_Iterate_list:
  "wf_len n p \<Longrightarrow> n < 25 \<Longrightarrow> i < n \<Longrightarrow>
   \<exists>q. Filter p ch i = Some q \<and> Iterate q = filter (\<lambda>l. Line l ! i = ch) (Iterate p)"
proof (induction p arbitrary: n i)
  case (Impossible x)
  then show ?case by simp
next
  case (Words ws oi lm)
  then show ?case by (rule Filter_Words)
next
  case (BlockBefore lines)
  let ?P = "\<lambda>l. Line l ! i = ch"
  let ?c = "\<lambda>line. \<lparr>Line = [kBlocked] @ Line line, LineWords = LineWords line\<rparr>"
  from BlockBefore.prems have wf': "wf_len (n - 1) lines" and pos: "0 < n" by auto
  have NL: "NumLetters (BlockBefore lines) = Some n"
    using BlockBefore.prems(1) by (rule wf_len_NumLetters)
  show ?case
  proof (cases "i = 0")
    case True
    have "filter ?P (map ?c (Iterate lines)) = (if ch = kBlocked then map ?c (Iterate lines) else [])"
      using True by (auto simp: filter_empty_conv filter_id_conv)
    then show ?thesis using True NL \<open>n < 25\<close> by (simp add: MakeImpossible_def)
  next
    case False
    with BlockBefore.prems have "n - 1 < 25" "i - 1 < n - 1" by auto
    from BlockBefore.IH [OF wf' this] obtain inner where
      inner: "Filter lines ch (i - 1) = Some inner"
        "Iterate inner = filter (\<lambda>l. Line l ! (i - 1) = ch) (Iterate lines)"
      by blast
    from BlockBefore_build_Iterate [OF NL \<open>n < 25\<close>, of inner] obtain q where
      q: "BlockBefore_build lines inner = Some q" "Iterate q = Iterate (BlockBefore inner)"
      by blast
    have "filter ?P (map ?c (Iterate lines)) = map ?c (filter (\<lambda>l. Line l ! (i - 1) = ch) (Iterate lines))"
      using False by (simp add: filter_map o_def nth_Cons')
    then show ?thesis using False inner q by simp
  qed
next
  case (BlockAfter lines)
  let ?P = "\<lambda>l. Line l ! i = ch"
  let ?c = "\<lambda>line. \<lparr>Line = Line line @ [kBlocked], LineWords = LineWords line\<rparr>"
  from BlockAfter.prems have wf': "wf_len (n - 1) lines" and pos: "0 < n" by auto
  have NL: "NumLetters (BlockAfter lines) = Some n"
    using BlockAfter.prems(1) by (rule wf_len_NumLetters)
  have NL': "NumLetters lines = Some (n - 1)" using wf' by (rule wf_len_NumLetters)
  have len: "length (Line l) = n - 1" if "l \<in> set (Iterate lines)" for l
    using wf' that by (rule wf_len_Line_length)
  show ?case
  proof (cases "i = n - 1")
    case True
    have "(Line l @ [kBlocked]) ! i = kBlocked" if "l \<in> set (Iterate lines)" for l
      using True len [OF that] by (simp add: nth_append)
    then have "filter ?P (map ?c (Iterate lines)) = (if ch = kBlocked then map ?c (Iterate lines) else [])"
      by (auto simp: filter_empty_conv filter_id_conv)
    then show ?thesis using True NL NL' \<open>n < 25\<close> by (simp add: MakeImpossible_def)
  next
    case False
    with BlockAfter.prems have i': "i < n - 1" by auto
    from \<open>n < 25\<close> have "n - 1 < 25" by simp
    from BlockAfter.IH [OF wf' this i'] obtain inner where
      inner: "Filter lines ch i = Some inner"
        "Iterate inner = filter ?P (Iterate lines)"
      by auto
    from BlockAfter_build_Iterate [OF NL \<open>n < 25\<close>, of inner] obtain q where
      q: "BlockAfter_build lines inner = Some q" "Iterate q = Iterate (BlockAfter inner)"
      by blast
    have "filter ?P (map ?c (Iterate lines)) = map ?c (filter ?P (Iterate lines))"
      unfolding filter_map using len i'
      by (auto simp: o_def nth_append intro!: arg_cong [where f = "map ?c"] filter_cong)
    then show ?thesis using False inner q NL' by simp
  qed
next
  case (BlockBetween first second)
  let ?P = "\<lambda>l. Line l ! i = ch"
  let ?c = "\<lambda>f s. \<lparr>Line = (Line f @ [kBlocked]) @ Line s, LineWords = LineWords f @ LineWords s\<rparr>"
  from BlockBetween.prems obtain a where a: "NumLetters first = Some a" "a < n"
    "wf_len a first" "wf_len (n - a - 1) second"
    by (auto split: option.splits)
  have NL: "NumLetters (BlockBetween first second) = Some n"
    using BlockBetween.prems(1) by (rule wf_len_NumLetters)
  have lenf: "length (Line l) = a" if "l \<in> set (Iterate first)" for l
    using a(3) that by (rule wf_len_Line_length)
  have It: "Iterate (BlockBetween f s) = concat (map (\<lambda>x. map (?c x) (Iterate s)) (Iterate f))" for f s
    by simp
  have filt: "filter ?P (Iterate (BlockBetween first second)) = concat (map h (Iterate first))"
    if "\<And>x. x \<in> set (Iterate first) \<Longrightarrow> filter ?P (map (?c x) (Iterate second)) = h x" for h
    using that by (simp add: filter_concat_map_cong)
  show ?case
  proof (cases "i = a")
    case True
    have "filter ?P (map (?c f) (Iterate second)) = (if ch = kBlocked then map (?c f) (Iterate second) else [])"
      if "f \<in> set (Iterate first)" for f
      using True lenf [OF that] by (auto simp: filter_empty_conv filter_id_conv nth_append)
    from filt [OF this] have "filter ?P (Iterate (BlockBetween first second))
        = (if ch = kBlocked then Iterate (BlockBetween first second) else [])"
      by (simp add: concat_map_Nil)
    then show ?thesis using True a(1) NL \<open>n < 25\<close> by (simp add: MakeImpossible_def)
  next
    case False
    show ?thesis
    proof (cases "i < a")
      case True
      from a(2) \<open>n < 25\<close> have "a < 25" by simp
      from BlockBetween.IH(1) [OF a(3) this True] obtain f where
        f: "Filter first ch i = Some f" "Iterate f = filter ?P (Iterate first)"
        by auto
      from BlockBetween_build_Iterate [OF NL \<open>n < 25\<close>, of f second] obtain q where
        q: "BlockBetween_build first second f second = Some q"
           "Iterate q = Iterate (BlockBetween f second)"
        by blast
      have "filter ?P (map (?c x) (Iterate second)) = (if ?P x then map (?c x) (Iterate second) else [])"
        if "x \<in> set (Iterate first)" for x
        using True lenf [OF that] by (auto simp: filter_empty_conv filter_id_conv nth_append)
      from filt [OF this] have "filter ?P (Iterate (BlockBetween first second))
          = concat (map (\<lambda>x. if ?P x then map (?c x) (Iterate second) else []) (Iterate first))" .
      also have "\<dots> = Iterate (BlockBetween f second)"
        unfolding It f(2) by (rule concat_map_if_filter)
      finally show ?thesis using True False a(1) f q by simp
    next
      case gt: False
      with False BlockBetween.prems a(2) have i': "i - a - 1 < n - a - 1" by auto
      from \<open>n < 25\<close> have "n - a - 1 < 25" by simp
      from BlockBetween.IH(2) [OF a(4) this i'] obtain s where
        s: "Filter second ch (i - a - 1) = Some s"
           "Iterate s = filter (\<lambda>l. Line l ! (i - a - 1) = ch) (Iterate second)"
        by auto
      from BlockBetween_build_Iterate [OF NL \<open>n < 25\<close>, of first s] obtain q where
        q: "BlockBetween_build first second first s = Some q"
           "Iterate q = Iterate (BlockBetween first s)"
        by blast
      have "filter ?P (map (?c x) (Iterate second)) = map (?c x) (Iterate s)"
        if "x \<in> set (Iterate first)" for x
        unfolding filter_map s(2) using gt False lenf [OF that]
        by (auto simp: o_def nth_append intro!: arg_cong [where f = "map (?c x)"] filter_cong)
      from filt [OF this] have "filter ?P (Iterate (BlockBetween first second)) = Iterate (BlockBetween first s)"
        by simp
      then show ?thesis using gt False a(1) s q by simp
    qed
  qed
next
  case (Compound ps)
  let ?P = "\<lambda>l. Line l ! i = ch"
  define g where "g p = the (Filter p ch i)" for p
  from Compound.prems have wfp: "\<And>p. p \<in> set ps \<Longrightarrow> wf_len n p" and two: "2 \<le> length ps"
    by (auto simp: list_all_iff)
  have gp: "Filter p ch i = Some (g p) \<and> Iterate (g p) = filter ?P (Iterate p)"
    if "p \<in> set ps" for p
    using Compound.IH [OF that wfp [OF that] Compound.prems(2,3)] by (auto simp: g_def)
  have fs: "those (map (\<lambda>p. Filter p ch i) ps) = Some (map g ps)"
    by (rule those_map_Some) (use gp in auto)
  have NL: "NumLetters (Compound ps) = Some n"
    using Compound.prems(1) by (rule wf_len_NumLetters)
  have all: "concat (map Iterate (map g ps)) = filter ?P (Iterate (Compound ps))"
    using gp by (auto simp: filter_concat o_def cong: map_cong intro!: arg_cong [where f = concat])
  obtain any' filtered' where
    loop: "Compound_Filter_loop [] (zip ps (map g ps)) False [] = (any', filtered')"
    by (cases "Compound_Filter_loop [] (zip ps (map g ps)) False []") auto
  from Compound_Filter_loop_spec [OF _ loop] have
    any': "any' \<longleftrightarrow> ps \<noteq> map g ps"
    and filtered': "any' \<Longrightarrow> concat (map Iterate filtered') = concat (map Iterate (map g ps))"
    by auto
  show ?case
  proof (cases any')
    case True
    from MakeCompound_Iterate [OF \<open>n < 25\<close>, of filtered'] obtain q where
      "MakeCompound filtered' n = Some q" "Iterate q = concat (map Iterate filtered')"
      by blast
    then show ?thesis using True fs loop NL filtered' all by simp
  next
    case False
    with any' have "map g ps = ps" by simp
    with all have "Iterate (Compound ps) = filter ?P (Iterate (Compound ps))" by simp
    then show ?thesis using False fs loop by simp
  qed
next
  case (Definite line)
  then show ?case by (auto simp: MakeImpossible_def)
qed

lemma well_formed_wf_len: "well_formed p \<Longrightarrow> NumLetters p = Some n \<Longrightarrow> wf_len n p \<and> n < 25"
  by (simp add: well_formed_def)

text \<open>
  C2. For a well-formed \<open>p\<close>, a rune \<open>ch\<close> and an index \<open>i\<close> below
  \<^verbatim>\<open>p.NumLetters()\<close>, \<^verbatim>\<open>p.Filter(ch, i)\<close> returns a value whose \<^verbatim>\<open>Iterate()\<close>
  yields exactly the lines of \<^verbatim>\<open>p.Iterate()\<close> whose cell \<open>i\<close> is \<open>ch\<close>, as a
  multiset (and in the same order).
\<close>

theorem Filter_yields_matching_lines:
  assumes "well_formed p" and "NumLetters p = Some n" and "i < n"
  shows "\<exists>q. Filter p ch i = Some q
           \<and> mset (Iterate q) = filter_mset (\<lambda>l. Line l ! i = ch) (mset (Iterate p))
           \<and> Iterate q = filter (\<lambda>l. Line l ! i = ch) (Iterate p)"
proof -
  from well_formed_wf_len [OF assms(1,2)] have "wf_len n p" "n < 25" by auto
  from Filter_Iterate_list [OF this assms(3), of ch] obtain q where
    q: "Filter p ch i = Some q" "Iterate q = filter (\<lambda>l. Line l ! i = ch) (Iterate p)"
    by blast
  from q(2) have "mset (Iterate q) = filter_mset (\<lambda>l. Line l ! i = ch) (mset (Iterate p))"
    by simp
  with q show ?thesis by blast
qed

definition catDog :: PossibleLines where
  "catDog = Compound [Words [''cat'', ''cot'', ''car''] 3 [], Words [''dog'', ''dot''] 2 []]"

lemma well_formed_catDog: "well_formed catDog \<and> NumLetters catDog = Some 3"
  by (simp add: catDog_def well_formed_def lowercase_def)

theorem Filter_yields_matching_lines_witness:
  "well_formed catDog \<and> NumLetters catDog = Some 3
   \<and> (\<exists>q. Filter catDog 111 1 = Some q
         \<and> mset (Iterate q) = filter_mset (\<lambda>l. Line l ! 1 = 111) (mset (Iterate catDog))
         \<and> map Line (Iterate q) = [runes ''cot'', runes ''dog'', runes ''dot''])"
proof -
  have wf: "well_formed catDog" and nl: "NumLetters catDog = Some 3"
    using well_formed_catDog by auto
  have "filter (\<lambda>l. Line l ! 1 = 111) (Iterate catDog)
      = [\<lparr>Line = runes ''cot'', LineWords = [''cot'']\<rparr>,
         \<lparr>Line = runes ''dog'', LineWords = [''dog'']\<rparr>,
         \<lparr>Line = runes ''dot'', LineWords = [''dot'']\<rparr>]"
    by (simp add: catDog_def runes_def)
  with Filter_yields_matching_lines [OF wf nl, of 1 111] wf nl show ?thesis
    by auto
qed

subsection \<open>DefinitelyBlockedAt\<close>

lemma wf_len_Iterate_nonempty:
  "wf_len n p \<Longrightarrow> \<not> isImpossible p \<Longrightarrow> Iterate p \<noteq> []"
proof (induction p arbitrary: n)
  case (Words ws oi lm)
  then show ?case by auto
next
  case (BlockBefore p)
  from BlockBefore.prems have "wf_len (n - 1) p" "\<not> isImpossible p" by auto
  with BlockBefore.IH show ?case by simp
next
  case (BlockAfter p)
  from BlockAfter.prems have "wf_len (n - 1) p" "\<not> isImpossible p" by auto
  with BlockAfter.IH show ?case by simp
next
  case (BlockBetween p1 p2)
  from BlockBetween.prems obtain a where "wf_len a p1" "wf_len (n - a - 1) p2"
    "\<not> isImpossible p1" "\<not> isImpossible p2"
    by (auto split: option.splits)
  with BlockBetween.IH have "Iterate p1 \<noteq> []" "Iterate p2 \<noteq> []" by blast+
  then obtain f s where "f \<in> set (Iterate p1)" "s \<in> set (Iterate p2)"
    by (meson last_in_set)
  then show ?case by (auto simp: concat_eq_Nil_conv intro!: bexI [of _ f])
next
  case (Compound ps)
  from Compound.prems obtain p where "p \<in> set ps" "wf_len n p" "\<not> isImpossible p"
    by (cases ps) (auto simp: list_all_iff)
  with Compound.IH have "p \<in> set ps" "Iterate p \<noteq> []" by blast+
  then show ?case by auto
qed auto

lemma DefinitelyBlockedAt_loop_all:
  "(\<And>p. p \<in> set ps \<Longrightarrow> DefinitelyBlockedAt p i = Some (g p)) \<Longrightarrow>
   DefinitelyBlockedAt_loop ps i = Some (\<forall>p\<in>set ps. g p)"
  by (induction ps) auto

lemma DefinitelyBlockedAt_Iterate:
  "wf_len n p \<Longrightarrow> \<not> isImpossible p \<Longrightarrow> i < n \<Longrightarrow>
   DefinitelyBlockedAt p i = Some (\<forall>l\<in>set (Iterate p). Line l ! i = kBlocked)"
proof (induction p arbitrary: n i)
  case (Impossible x)
  then show ?case by simp
next
  case (Words ws oi lm)
  from Words.prems obtain w where w: "w \<in> set ws" "length w = n" "lowercase w"
    by (cases ws) (auto simp: list_all_iff)
  from lowercase_nth [OF w(3), of i] w(2) \<open>i < n\<close> have "runes w ! i \<noteq> kBlocked"
    by (simp add: runes_def kBlocked_def)
  with w(1) show ?case by (auto intro!: bexI [of _ w])
next
  case (BlockBefore lines)
  from BlockBefore.prems have wf': "wf_len (n - 1) lines" "\<not> isImpossible lines" by auto
  show ?case
  proof (cases "i = 0")
    case True
    then show ?thesis by simp
  next
    case False
    with BlockBefore.prems have "i - 1 < n - 1" by auto
    from BlockBefore.IH [OF wf' this] False show ?thesis by (simp add: nth_Cons')
  qed
next
  case (BlockAfter lines)
  from BlockAfter.prems have wf': "wf_len (n - 1) lines" "\<not> isImpossible lines" by auto
  have NL': "NumLetters lines = Some (n - 1)" using wf'(1) by (rule wf_len_NumLetters)
  have len: "length (Line l) = n - 1" if "l \<in> set (Iterate lines)" for l
    using wf'(1) that by (rule wf_len_Line_length)
  show ?case
  proof (cases "i = n - 1")
    case True
    then show ?thesis using NL' len by (simp add: nth_append)
  next
    case False
    with BlockAfter.prems have i': "i < n - 1" by auto
    from BlockAfter.IH [OF wf' i'] False NL' len i' show ?thesis by (simp add: nth_append)
  qed
next
  case (BlockBetween first second)
  from BlockBetween.prems obtain a where a: "NumLetters first = Some a" "a < n"
    "wf_len a first" "wf_len (n - a - 1) second" "\<not> isImpossible first" "\<not> isImpossible second"
    by (auto split: option.splits)
  have lenf: "length (Line l) = a" if "l \<in> set (Iterate first)" for l
    using a(3) that by (rule wf_len_Line_length)
  from wf_len_Iterate_nonempty [OF a(3,5)] obtain f0 where f0: "f0 \<in> set (Iterate first)"
    by (meson last_in_set)
  from wf_len_Iterate_nonempty [OF a(4,6)] obtain s0 where s0: "s0 \<in> set (Iterate second)"
    by (meson last_in_set)
  show ?case
  proof (cases "i = a")
    case True
    then show ?thesis using a(1) lenf by (auto simp: nth_append)
  next
    case False
    show ?thesis
    proof (cases "i < a")
      case True
      from BlockBetween.IH(1) [OF a(3,5) True] True False a(1) lenf s0
      show ?thesis by (auto simp: nth_append)
    next
      case gt: False
      with False BlockBetween.prems a(2) have i': "i - a - 1 < n - a - 1" by auto
      have nth: "((Line f @ [kBlocked]) @ Line s) ! i = Line s ! (i - a - 1)"
        if "f \<in> set (Iterate first)" for f s
        using lenf [OF that] gt False by (auto simp: nth_append nth_Cons')
      have "(\<forall>l\<in>set (Iterate (BlockBetween first second)). Line l ! i = kBlocked)
          \<longleftrightarrow> (\<forall>s\<in>set (Iterate second). Line s ! (i - a - 1) = kBlocked)"
        using f0 by (auto simp: nth simp del: append_assoc append.simps)
      with BlockBetween.IH(2) [OF a(4,6) i'] gt False a(1)
      show ?thesis by (simp del: Iterate.simps)
    qed
  qed
next
  case (Compound ps)
  have "DefinitelyBlockedAt p i = Some (\<forall>l\<in>set (Iterate p). Line l ! i = kBlocked)"
    if "p \<in> set ps" for p
    using Compound.IH [OF that _ _ \<open>i < n\<close>] Compound.prems(1) that by (auto simp: list_all_iff)
  from DefinitelyBlockedAt_loop_all [of ps i "\<lambda>p. \<forall>l\<in>set (Iterate p). Line l ! i = kBlocked", OF this]
  show ?case by auto
next
  case (Definite line)
  then show ?case by auto
qed


text \<open>
  C8 (as amended). For a well-formed \<open>p\<close> that yields at least one line and an index
  \<open>i\<close> below \<^verbatim>\<open>p.NumLetters()\<close>, \<^verbatim>\<open>p.DefinitelyBlockedAt(i)\<close> returns true if and
  only if every line yielded by \<^verbatim>\<open>p.Iterate()\<close> has the blocked sentinel at \<open>i\<close>.
\<close>

theorem DefinitelyBlockedAt_iff_all_blocked:
  assumes "well_formed p" and "NumLetters p = Some n" and "i < n" and "Iterate p \<noteq> []"
  shows "\<exists>b. DefinitelyBlockedAt p i = Some b
           \<and> (b \<longleftrightarrow> (\<forall>l\<in>set (Iterate p). Line l ! i = kBlocked))"
proof -
  from well_formed_wf_len [OF assms(1,2)] have wf: "wf_len n p" by simp
  from assms(4) have "\<not> isImpossible p" by (auto dest: isImpossible_Iterate)
  from DefinitelyBlockedAt_Iterate [OF wf this assms(3)] show ?thesis by simp
qed

theorem DefinitelyBlockedAt_iff_all_blocked_witness:
  "well_formed (BlockBefore catDog) \<and> NumLetters (BlockBefore catDog) = Some 4
   \<and> Iterate (BlockBefore catDog) \<noteq> []
   \<and> (\<exists>b. DefinitelyBlockedAt (BlockBefore catDog) 0 = Some b
         \<and> (b \<longleftrightarrow> (\<forall>l\<in>set (Iterate (BlockBefore catDog)). Line l ! 0 = kBlocked)))
   \<and> DefinitelyBlockedAt (BlockBefore catDog) 0 = Some True
   \<and> DefinitelyBlockedAt (BlockBefore catDog) 1 = Some False"
proof -
  have wf: "well_formed (BlockBefore catDog)" and nl: "NumLetters (BlockBefore catDog) = Some 4"
    by (simp_all add: catDog_def well_formed_def lowercase_def)
  have ne: "Iterate (BlockBefore catDog) \<noteq> []" by (simp add: catDog_def)
  have v: "DefinitelyBlockedAt (BlockBefore catDog) 0 = Some True"
    "DefinitelyBlockedAt (BlockBefore catDog) 1 = Some False"
    by (simp_all add: catDog_def)
  from DefinitelyBlockedAt_iff_all_blocked [OF wf nl _ ne, of 0] wf nl ne v show ?thesis
    by simp
qed

text \<open>
  C8 as stated includes the value that yields no line: there every line has the sentinel
  at \<open>i\<close>, vacuously, and \<^verbatim>\<open>Impossible.DefinitelyBlockedAt\<close> returns false.
\<close>

theorem DefinitelyBlockedAt_Impossible_counterexample:
  "well_formed (Impossible 3)
   \<and> \<not> (DefinitelyBlockedAt (Impossible 3) 0 = Some True
          \<longleftrightarrow> (\<forall>l\<in>set (Iterate (Impossible 3)). Line l ! 0 = kBlocked))"
  by (simp add: well_formed_def)

subsection \<open>The loops of Compound, exactly\<close>

definition nonImpossible :: "PossibleLines list \<Rightarrow> PossibleLines list" where
  "nonImpossible fs = filter (\<lambda>f. \<not> isImpossible f) fs"

lemma nonImpossible_simps [simp]:
  "nonImpossible [] = []"
  "nonImpossible (f # fs) = (if isImpossible f then nonImpossible fs else f # nonImpossible fs)"
  by (simp_all add: nonImpossible_def)

lemma nonImpossible_id: "(\<And>p. p \<in> set ps \<Longrightarrow> \<not> isImpossible p) \<Longrightarrow> nonImpossible ps = ps"
  by (simp add: nonImpossible_def filter_id_conv)

lemma Compound_Filter_loop_exact:
  "length ps = length fs \<Longrightarrow> (\<And>p. p \<in> set ps \<Longrightarrow> \<not> isImpossible p) \<Longrightarrow>
   Compound_Filter_loop seen (zip ps fs) any filtered =
     (any \<or> ps \<noteq> fs,
      if any then filtered @ nonImpossible fs
      else if ps \<noteq> fs then filtered @ seen @ nonImpossible fs else filtered)"
proof (induction ps fs arbitrary: seen any filtered rule: list_induct2)
  case Nil
  then show ?case by simp
next
  case (Cons p ps f fs)
  have IH: "Compound_Filter_loop seen' (zip ps fs) any' filtered' =
     (any' \<or> ps \<noteq> fs,
      if any' then filtered' @ nonImpossible fs
      else if ps \<noteq> fs then filtered' @ seen' @ nonImpossible fs else filtered')"
    for seen' any' filtered'
    using Cons.IH Cons.prems by simp
  have p: "\<not> isImpossible p" using Cons.prems by simp
  consider (changed) "any" | (first) "\<not> any" "p \<noteq> f" | (same) "\<not> any" "p = f"
    by blast
  then show ?case
  proof cases
    case changed
    then show ?thesis by (cases "isImpossible f") (simp_all add: IH)
  next
    case first
    then show ?thesis by (cases "isImpossible f") (simp_all add: IH)
  next
    case same
    then show ?thesis using p by (simp add: IH)
  qed
qed

lemma Compound_FilterAny_loop_exact:
  "length ps = length fs \<Longrightarrow> (\<And>p. p \<in> set ps \<Longrightarrow> \<not> isImpossible p) \<Longrightarrow>
   (\<And>f. f \<in> set fs \<Longrightarrow> \<not> isCompound f) \<Longrightarrow>
   Compound_FilterAny_loop seen (zip ps fs) any filtered =
     (any \<or> ps \<noteq> fs,
      if any then filtered @ nonImpossible fs
      else if ps \<noteq> fs then filtered @ seen @ nonImpossible fs else filtered)"
proof (induction ps fs arbitrary: seen any filtered rule: list_induct2)
  case Nil
  then show ?case by simp
next
  case (Cons p ps f fs)
  have IH: "Compound_FilterAny_loop seen' (zip ps fs) any' filtered' =
     (any' \<or> ps \<noteq> fs,
      if any' then filtered' @ nonImpossible fs
      else if ps \<noteq> fs then filtered' @ seen' @ nonImpossible fs else filtered')"
    for seen' any' filtered'
    using Cons.IH Cons.prems by simp
  have p: "\<not> isImpossible p" using Cons.prems by simp
  have f: "\<not> isCompound f" using Cons.prems by simp
  then have fc: "(case f of Compound ps \<Rightarrow> xs @ ps | _ \<Rightarrow> xs @ [f]) = xs @ [f]" for xs
    by (cases f) auto
  consider (changed) "any" | (first) "\<not> any" "p \<noteq> f" | (same) "\<not> any" "p = f"
    by blast
  then show ?case
  proof cases
    case changed
    then show ?thesis by (cases "isImpossible f") (simp_all add: IH fc)
  next
    case first
    then show ?thesis by (cases "isImpossible f") (simp_all add: IH fc)
  next
    case same
    then show ?thesis using p by (simp add: IH)
  qed
qed

lemma Compound_RemoveWordOptions_loop_exact:
  "length ps = length fs \<Longrightarrow> (\<And>p. p \<in> set ps \<Longrightarrow> \<not> isImpossible p) \<Longrightarrow>
   (\<not> any \<Longrightarrow> maybeFiltered = []) \<Longrightarrow>
   Compound_RemoveWordOptions_loop seen (zip ps fs) any maybeFiltered =
     (any \<or> ps \<noteq> fs,
      if any then maybeFiltered @ nonImpossible fs
      else if ps \<noteq> fs then seen @ nonImpossible fs else [])"
proof (induction ps fs arbitrary: seen any maybeFiltered rule: list_induct2)
  case Nil
  then show ?case by auto
next
  case (Cons p ps f fs)
  have IH_T: "Compound_RemoveWordOptions_loop seen' (zip ps fs) True mf' =
     (True, mf' @ nonImpossible fs)" for seen' mf'
    using Cons.IH [of True mf' seen'] Cons.prems by simp
  have IH_F: "Compound_RemoveWordOptions_loop seen' (zip ps fs) False [] =
     (ps \<noteq> fs, if ps \<noteq> fs then seen' @ nonImpossible fs else [])" for seen'
    using Cons.IH [of False "[]" seen'] Cons.prems by simp
  note IH = IH_T IH_F
  have p: "\<not> isImpossible p" using Cons.prems by simp
  consider (changed) "any" | (first) "\<not> any" "p \<noteq> f" | (same) "\<not> any" "p = f"
    by blast
  then show ?case
  proof cases
    case changed
    then show ?thesis by (cases "isImpossible f") (simp_all add: IH)
  next
    case first
    then have mf: "maybeFiltered = []" using Cons.prems by simp
    from first mf show ?thesis
      by (cases "isImpossible f"; cases "seen = []") (simp_all add: IH Let_def)
  next
    case same
    then have mf: "maybeFiltered = []" using Cons.prems by simp
    from same mf p show ?thesis by (simp add: IH)
  qed
qed

lemma those_map_SomeD:
  "those (map f xs) = Some ys \<Longrightarrow> ys = map (\<lambda>x. the (f x)) xs \<and> (\<forall>x\<in>set xs. f x = Some (the (f x)))"
  by (induction xs arbitrary: ys) (auto split: option.splits)

lemma MakeImpossible_Some: "n < 25 \<Longrightarrow> MakeImpossible n = Some (Impossible n)"
  by (simp add: MakeImpossible_def)

lemma MakeImpossible_SomeD: "MakeImpossible n = Some q \<Longrightarrow> q = Impossible n"
  by (simp add: MakeImpossible_def split: if_splits)

lemma MakeCompound_clean:
  assumes "\<And>x. x \<in> set xs \<Longrightarrow> \<not> isImpossible x \<and> \<not> isCompound x"
  shows "MakeCompound xs n =
    (case xs of [] \<Rightarrow> MakeImpossible n | [x] \<Rightarrow> Some x | _ \<Rightarrow> Some (Compound xs))"
proof -
  consider "xs = []" | x where "xs = [x]" | "2 \<le> length xs"
    by (cases xs rule: remdups_adj.cases) auto
  then show ?thesis
  proof cases
    case 1
    then show ?thesis by (simp add: MakeCompound_Nil)
  next
    case 2
    then show ?thesis by (simp add: MakeCompound_single)
  next
    case 3
    from assms have "\<not> list_ex (\<lambda>p. isImpossible p \<or> isCompound p) xs"
      by (auto simp: list_ex_iff)
    with 3 show ?thesis
      by (cases xs rule: remdups_adj.cases) (simp_all add: MakeCompound_many)
  qed
qed

text \<open>The result of an operation on a Compound whose children return \<open>g p\<close>.\<close>

definition Compound_result :: "PossibleLines list \<Rightarrow> (PossibleLines \<Rightarrow> PossibleLines) \<Rightarrow> nat \<Rightarrow> PossibleLines option" where
  "Compound_result ps g n =
     (if map g ps = ps then Some (Compound ps) else MakeCompound (nonImpossible (map g ps)) n)"

lemma Filter_Compound:
  assumes "\<And>p. p \<in> set ps \<Longrightarrow> \<not> isImpossible p"
    and "\<And>p. p \<in> set ps \<Longrightarrow> Filter p ch i = Some (g p)"
    and "NumLetters (Compound ps) = Some n"
  shows "Filter (Compound ps) ch i = Compound_result ps g n"
proof -
  have fs: "those (map (\<lambda>p. Filter p ch i) ps) = Some (map g ps)"
    by (rule those_map_Some) (use assms(2) in auto)
  have loop: "Compound_Filter_loop [] (zip ps (map g ps)) False []
      = (ps \<noteq> map g ps, if ps \<noteq> map g ps then nonImpossible (map g ps) else [])"
    using Compound_Filter_loop_exact [of ps "map g ps" "[]" False "[]"] assms(1) by simp
  show ?thesis
    using assms(3) by (auto simp: fs loop Compound_result_def simp del: NumLetters.simps)
qed

lemma FilterAny_Compound:
  assumes "\<And>p. p \<in> set ps \<Longrightarrow> \<not> isImpossible p"
    and "\<And>p. p \<in> set ps \<Longrightarrow> FilterAny p cs i = Some (g p)"
    and "\<And>p. p \<in> set ps \<Longrightarrow> \<not> isCompound (g p)"
    and "NumLetters (Compound ps) = Some n" and "\<not> IsFull cs"
  shows "FilterAny (Compound ps) cs i = Compound_result ps g n"
proof -
  have fs: "those (map (\<lambda>p. FilterAny p cs i) ps) = Some (map g ps)"
    by (rule those_map_Some) (use assms(2) in auto)
  have loop: "Compound_FilterAny_loop [] (zip ps (map g ps)) False []
      = (ps \<noteq> map g ps, if ps \<noteq> map g ps then nonImpossible (map g ps) else [])"
  proof -
    have "\<And>f. f \<in> set (map g ps) \<Longrightarrow> \<not> isCompound f" using assms(3) by auto
    from Compound_FilterAny_loop_exact [of ps "map g ps" "[]" False "[]", OF _ assms(1) this]
    show ?thesis by simp
  qed
  have mc: "(if length xs = 0 then MakeImpossible n
             else if length xs = 1 then Some (hd xs) else MakeCompound xs n) = MakeCompound xs n" for xs
    by (cases xs rule: remdups_adj.cases) (simp_all add: MakeCompound_Nil MakeCompound_single)
  have "FilterAny (Compound ps) cs i =
      (if ps = map g ps then Some (Compound ps)
       else (if length (nonImpossible (map g ps)) = 0 then MakeImpossible n
             else if length (nonImpossible (map g ps)) = 1 then Some (hd (nonImpossible (map g ps)))
             else MakeCompound (nonImpossible (map g ps)) n))"
    using assms(4,5) by (simp add: fs loop del: NumLetters.simps)
  then show ?thesis unfolding mc by (auto simp: Compound_result_def)
qed

lemma RemoveWordOptions_Compound:
  assumes "\<And>p. p \<in> set ps \<Longrightarrow> \<not> isImpossible p"
    and "\<And>p. p \<in> set ps \<Longrightarrow> RemoveWordOptions p ws = Some (g p)"
    and "NumLetters (Compound ps) = Some n"
  shows "RemoveWordOptions (Compound ps) ws = Compound_result ps g n"
proof -
  have fs: "those (map (\<lambda>p. RemoveWordOptions p ws) ps) = Some (map g ps)"
    by (rule those_map_Some) (use assms(2) in auto)
  have loop: "Compound_RemoveWordOptions_loop [] (zip ps (map g ps)) False []
      = (ps \<noteq> map g ps, if ps \<noteq> map g ps then nonImpossible (map g ps) else [])"
    using Compound_RemoveWordOptions_loop_exact [of ps "map g ps" False "[]" "[]"] assms(1) by simp
  show ?thesis
    using assms(3) by (auto simp: fs loop Compound_result_def simp del: NumLetters.simps)
qed

lemma Compound_result_wf:
  assumes "wf_len n (Compound ps)" and "n < 25"
    and "\<And>p. p \<in> set ps \<Longrightarrow> wf_len n (g p) \<and> \<not> isCompound (g p)"
  shows "\<exists>q. Compound_result ps g n = Some q \<and> wf_len n q"
proof (cases "map g ps = ps")
  case True
  then show ?thesis using assms(1) by (simp add: Compound_result_def)
next
  case False
  let ?xs = "nonImpossible (map g ps)"
  have ok: "wf_len n x \<and> \<not> isImpossible x \<and> \<not> isCompound x" if "x \<in> set ?xs" for x
    using that assms(3) by (auto simp: nonImpossible_def)
  then have mc: "MakeCompound ?xs n =
      (case ?xs of [] \<Rightarrow> MakeImpossible n | [x] \<Rightarrow> Some x | _ \<Rightarrow> Some (Compound ?xs))"
    by (intro MakeCompound_clean) auto
  consider "?xs = []" | x where "?xs = [x]" | "2 \<le> length ?xs"
    by (cases ?xs rule: remdups_adj.cases) auto
  then show ?thesis
  proof cases
    case 1
    then show ?thesis using False mc \<open>n < 25\<close> by (simp add: Compound_result_def MakeImpossible_def)
  next
    case 2
    with ok [of x] show ?thesis using False mc by (simp add: Compound_result_def)
  next
    case 3
    then have "MakeCompound ?xs n = Some (Compound ?xs)"
      using mc by (cases ?xs rule: remdups_adj.cases) simp_all
    moreover have "wf_len n (Compound ?xs)" using 3 ok by (simp add: list_all_iff)
    ultimately show ?thesis using False by (simp add: Compound_result_def)
  qed
qed

subsection \<open>Restrictions keep a value well formed\<close>

lemma MakeWords_wf:
  assumes "n < 25" and "\<And>w. w \<in> set xs \<Longrightarrow> length w = n \<and> lowercase w"
  shows "\<exists>q. MakeWords xs k n = Some q \<and> wf_len n q \<and> \<not> isCompound q"
  using assms
  by (cases "(xs, k, n)" rule: MakeWords.cases)
     (auto simp: MakeImpossible_def MakeDefinite_def runes_def list_all_iff)

lemma BlockBefore_build_wf:
  assumes "wf_len n (BlockBefore lines)" and "n < 25" and "wf_len (n - 1) inner"
  shows "\<exists>q. BlockBefore_build lines inner = Some q \<and> wf_len n q \<and> \<not> isCompound q"
proof -
  have "NumLetters (BlockBefore lines) = Some n" using assms(1) by (rule wf_len_NumLetters)
  then show ?thesis using assms
    by (cases "isImpossible inner")
       (auto simp: BlockBefore_build_def MakeImpossible_def simp del: NumLetters.simps)
qed

lemma BlockAfter_build_wf:
  assumes "wf_len n (BlockAfter lines)" and "n < 25" and "wf_len (n - 1) inner"
  shows "\<exists>q. BlockAfter_build lines inner = Some q \<and> wf_len n q \<and> \<not> isCompound q"
proof -
  have "NumLetters (BlockAfter lines) = Some n" using assms(1) by (rule wf_len_NumLetters)
  then show ?thesis using assms
    by (cases "isImpossible inner")
       (auto simp: BlockAfter_build_def MakeImpossible_def simp del: NumLetters.simps)
qed

lemma BlockBetween_build_wf:
  assumes "wf_len n (BlockBetween first second)" and "n < 25"
    and "NumLetters first = Some a" and "wf_len a f" and "wf_len (n - a - 1) s"
  shows "\<exists>q. BlockBetween_build first second f s = Some q \<and> wf_len n q \<and> \<not> isCompound q"
proof -
  have NL: "NumLetters (BlockBetween first second) = Some n"
    using assms(1) by (rule wf_len_NumLetters)
  have a: "a < n" using assms(1,3) by simp
  have nf: "NumLetters f = Some a" using assms(4) by (rule wf_len_NumLetters)
  show ?thesis
  proof (cases "isImpossible f \<or> isImpossible s")
    case True
    then show ?thesis using NL assms(2)
      by (auto simp: BlockBetween_build_def MakeImpossible_def simp del: NumLetters.simps)
  next
    case False
    then have "wf_len n (BlockBetween f s)" using a nf assms(4,5) by simp
    then show ?thesis using False assms(1)
      by (auto simp: BlockBetween_build_def simp del: wf_len.simps)
  qed
qed

lemma Words_filter_loop_SomeD:
  "Words_filter_loop keep i oi idx ws = Some (fl, k) \<Longrightarrow>
   fl = filter (\<lambda>w. keep (of_char (w ! i))) ws"
proof (induction ws arbitrary: idx fl k)
  case Nil
  then show ?case by simp
next
  case (Cons w ws)
  from Cons.prems obtain fl' k' where
    rest: "Words_filter_loop keep i oi (idx + 1) ws = Some (fl', k')"
    and r: "byteAt w i = Some (of_char (w ! i))"
    and fl: "fl = (if keep (of_char (w ! i)) then w # fl' else fl')"
    by (auto simp: bind_eq_Some_conv byteAt_def split: if_splits)
  from Cons.IH [OF rest] fl show ?case by simp
qed

lemma Words_remove_loop_fst:
  "fst (Words_remove_loop words oi idx ws) = filter (\<lambda>p. p \<notin> set words) ws"
  by (induction ws arbitrary: idx) (simp_all add: Let_def case_prod_beta)

lemma Filter_Words_wf:
  assumes wf: "wf_len n (Words ws oi lm)" and n: "n < 25"
    and q: "Filter (Words ws oi lm) ch i = Some q"
  shows "wf_len n q \<and> \<not> isCompound q"
proof -
  have NL: "NumLetters (Words ws oi lm) = Some n" using wf by (rule wf_len_NumLetters)
  from wf have ws: "\<And>w. w \<in> set ws \<Longrightarrow> length w = n \<and> lowercase w"
    by (auto simp: list_all_iff)
  consider (blocked) "q = Impossible n" | (same) "q = Words ws oi lm"
    | (filtered) fl k where "Words_filter_loop (\<lambda>r. r = ch) i oi 0 ws = Some (fl, k)"
        "MakeWords fl k n = Some q"
    using q NL n
    by (auto simp: bind_eq_Some_conv MakeImpossible_def Let_def simp del: NumLetters.simps
        split: if_splits)
  then show ?thesis
  proof cases
    case blocked
    then show ?thesis by simp
  next
    case same
    then show ?thesis using wf by simp
  next
    case filtered
    from Words_filter_loop_SomeD [OF filtered(1)] ws
    have ok: "length w = n \<and> lowercase w" if "w \<in> set fl" for w using that by simp
    from MakeWords_wf [where xs = fl and k = k, OF n ok] filtered(2) show ?thesis by auto
  qed
qed

lemma FilterAny_Words_wf:
  assumes wf: "wf_len n (Words ws oi lm)" and n: "n < 25"
    and q: "FilterAny (Words ws oi lm) cs i = Some q"
  shows "wf_len n q \<and> \<not> isCompound q"
proof -
  have NL: "NumLetters (Words ws oi lm) = Some n" using wf by (rule wf_len_NumLetters)
  from wf have ws: "\<And>w. w \<in> set ws \<Longrightarrow> length w = n \<and> lowercase w"
    by (auto simp: list_all_iff)
  consider (same) "q = Words ws oi lm"
    | (filtered) fl k where "Words_filter_loop (Contains cs) i oi 0 ws = Some (fl, k)"
        "MakeWords fl k n = Some q"
    using q NL n
    by (auto simp: bind_eq_Some_conv Let_def simp del: NumLetters.simps
        split: if_splits)
  then show ?thesis
  proof cases
    case same
    then show ?thesis using wf by simp
  next
    case filtered
    from Words_filter_loop_SomeD [OF filtered(1)] ws
    have ok: "length w = n \<and> lowercase w" if "w \<in> set fl" for w using that by simp
    from MakeWords_wf [where xs = fl and k = k, OF n ok] filtered(2) show ?thesis by auto
  qed
qed

lemma RemoveWordOptions_Words_wf:
  assumes wf: "wf_len n (Words ws oi lm)" and n: "n < 25"
    and q: "RemoveWordOptions (Words ws oi lm) words = Some q"
  shows "wf_len n q \<and> \<not> isCompound q"
proof -
  have NL: "NumLetters (Words ws oi lm) = Some n" using wf by (rule wf_len_NumLetters)
  from wf have ws: "\<And>w. w \<in> set ws \<Longrightarrow> length w = n \<and> lowercase w"
    by (auto simp: list_all_iff)
  obtain fp k where loop: "Words_remove_loop words oi 0 ws = (fp, k)"
    by (cases "Words_remove_loop words oi 0 ws") auto
  consider (same) "q = Words ws oi lm" | (filtered) "MakeWords fp k n = Some q"
    using q NL n loop
    by (auto simp: bind_eq_Some_conv Let_def simp del: NumLetters.simps
        split: if_splits)
  then show ?thesis
  proof cases
    case same
    then show ?thesis using wf by simp
  next
    case filtered
    from Words_remove_loop_fst [of words oi 0 ws] loop ws
    have ok: "length w = n \<and> lowercase w" if "w \<in> set fp" for w using that by simp
    from MakeWords_wf [where xs = fp and k = k, OF n ok] filtered show ?thesis by auto
  qed
qed

lemma Compound_children_wf:
  assumes "wf_len n (Compound ps)" and "p \<in> set ps"
  shows "wf_len n p" and "\<not> isImpossible p" and "\<not> isCompound p"
  using assms by (auto simp: list_all_iff)

lemma Filter_wf:
  "wf_len n p \<Longrightarrow> n < 25 \<Longrightarrow> Filter p ch i = Some q \<Longrightarrow>
   wf_len n q \<and> (\<not> isCompound p \<longrightarrow> \<not> isCompound q)"
proof (induction p arbitrary: n i q)
  case (Impossible x)
  then show ?case by auto
next
  case (Words ws oi lm)
  from Filter_Words_wf [OF Words.prems] show ?case by simp
next
  case (BlockBefore lines)
  from BlockBefore.prems have wf': "wf_len (n - 1) lines" and n1: "n - 1 < 25" by auto
  have NL: "NumLetters (BlockBefore lines) = Some n"
    using BlockBefore.prems(1) by (rule wf_len_NumLetters)
  consider (same) "q = BlockBefore lines" | (imp) "q = Impossible n"
    | (inner) inner where "Filter lines ch (i - 1) = Some inner" "BlockBefore_build lines inner = Some q"
    using BlockBefore.prems(3) NL
    by (auto simp: bind_eq_Some_conv simp del: NumLetters.simps split: if_splits
        dest: MakeImpossible_SomeD)
  then show ?case
  proof cases
    case same
    then show ?thesis using BlockBefore.prems(1) by simp
  next
    case imp
    then show ?thesis by simp
  next
    case inner
    from BlockBefore.IH [OF wf' n1 inner(1)] have "wf_len (n - 1) inner" by simp
    from BlockBefore_build_wf [OF BlockBefore.prems(1,2) this] inner(2) show ?thesis by auto
  qed
next
  case (BlockAfter lines)
  from BlockAfter.prems have wf': "wf_len (n - 1) lines" and n1: "n - 1 < 25" by auto
  have NL: "NumLetters (BlockAfter lines) = Some n"
    using BlockAfter.prems(1) by (rule wf_len_NumLetters)
  consider (same) "q = BlockAfter lines" | (imp) "q = Impossible n"
    | (inner) inner where "Filter lines ch i = Some inner" "BlockAfter_build lines inner = Some q"
    using BlockAfter.prems(3) NL
    by (auto simp: bind_eq_Some_conv split: if_splits dest: MakeImpossible_SomeD)
  then show ?case
  proof cases
    case same
    then show ?thesis using BlockAfter.prems(1) by simp
  next
    case imp
    then show ?thesis by simp
  next
    case inner
    from BlockAfter.IH [OF wf' n1 inner(1)] have "wf_len (n - 1) inner" by simp
    from BlockAfter_build_wf [OF BlockAfter.prems(1,2) this] inner(2) show ?thesis by auto
  qed
next
  case (BlockBetween first second)
  from BlockBetween.prems obtain a where a: "NumLetters first = Some a" "a < n"
    "wf_len a first" "wf_len (n - a - 1) second"
    by (auto split: option.splits)
  from a(2) \<open>n < 25\<close> have bounds: "a < 25" "n - a - 1 < 25" by auto
  have NL: "NumLetters (BlockBetween first second) = Some n"
    using BlockBetween.prems(1) by (rule wf_len_NumLetters)
  consider (same) "q = BlockBetween first second" | (imp) "q = Impossible n"
    | (first) f where "Filter first ch i = Some f" "BlockBetween_build first second f second = Some q"
    | (second) s where "Filter second ch (i - a - 1) = Some s"
        "BlockBetween_build first second first s = Some q"
    using BlockBetween.prems(3) NL a(1)
    by (auto simp: bind_eq_Some_conv split: if_splits dest: MakeImpossible_SomeD)
  then show ?case
  proof cases
    case same
    then show ?thesis using BlockBetween.prems(1) by simp
  next
    case imp
    then show ?thesis by simp
  next
    case first
    from BlockBetween.IH(1) [OF a(3) bounds(1) first(1)] have "wf_len a f" by simp
    from BlockBetween_build_wf [OF BlockBetween.prems(1,2) a(1) this a(4)] first(2)
    show ?thesis by auto
  next
    case second
    from BlockBetween.IH(2) [OF a(4) bounds(2) second(1)] have "wf_len (n - a - 1) s" by simp
    from BlockBetween_build_wf [OF BlockBetween.prems(1,2) a(1,3) this] second(2)
    show ?thesis by auto
  qed
next
  case (Compound ps)
  note ch = Compound_children_wf [OF Compound.prems(1)]
  define g where "g p = the (Filter p ch i)" for p
  from Compound.prems(3) obtain fs where "those (map (\<lambda>p. Filter p ch i) ps) = Some fs"
    by (auto simp: bind_eq_Some_conv)
  from those_map_SomeD [OF this] have gp: "Filter p ch i = Some (g p)" if "p \<in> set ps" for p
    using that by (simp add: g_def)
  have NL: "NumLetters (Compound ps) = Some n"
    using Compound.prems(1) by (rule wf_len_NumLetters)
  have res: "Filter (Compound ps) ch i = Compound_result ps g n"
    by (rule Filter_Compound) (use ch(2) gp NL in auto)
  have gwf: "wf_len n (g p) \<and> \<not> isCompound (g p)" if "p \<in> set ps" for p
    using Compound.IH [OF that ch(1) [OF that] Compound.prems(2) gp [OF that]] ch(3) [OF that]
    by simp
  from Compound_result_wf [where g = g, OF Compound.prems(1,2) gwf] res Compound.prems(3)
  show ?case by auto
next
  case (Definite line)
  then show ?case
    by (auto simp: bind_eq_Some_conv split: if_splits dest: MakeImpossible_SomeD)
qed


lemma FilterAny_wf:
  "wf_len n p \<Longrightarrow> n < 25 \<Longrightarrow> FilterAny p cs i = Some q \<Longrightarrow>
   wf_len n q \<and> (\<not> isCompound p \<longrightarrow> \<not> isCompound q)"
proof (induction p arbitrary: n i q)
  case (Impossible x)
  then show ?case by auto
next
  case (Words ws oi lm)
  from FilterAny_Words_wf [OF Words.prems] show ?case by simp
next
  case (BlockBefore lines)
  from BlockBefore.prems have wf': "wf_len (n - 1) lines" and n1: "n - 1 < 25" by auto
  have NL: "NumLetters (BlockBefore lines) = Some n"
    using BlockBefore.prems(1) by (rule wf_len_NumLetters)
  consider (same) "q = BlockBefore lines" | (imp) "q = Impossible n"
    | (inner) inner where "FilterAny lines cs (i - 1) = Some inner" "BlockBefore_build lines inner = Some q"
    using BlockBefore.prems(3) NL
    by (auto simp: bind_eq_Some_conv simp del: NumLetters.simps split: if_splits
        dest: MakeImpossible_SomeD)
  then show ?case
  proof cases
    case same
    then show ?thesis using BlockBefore.prems(1) by simp
  next
    case imp
    then show ?thesis by simp
  next
    case inner
    from BlockBefore.IH [OF wf' n1 inner(1)] have "wf_len (n - 1) inner" by simp
    from BlockBefore_build_wf [OF BlockBefore.prems(1,2) this] inner(2) show ?thesis by auto
  qed
next
  case (BlockAfter lines)
  from BlockAfter.prems have wf': "wf_len (n - 1) lines" and n1: "n - 1 < 25" by auto
  have NL: "NumLetters (BlockAfter lines) = Some n"
    using BlockAfter.prems(1) by (rule wf_len_NumLetters)
  consider (same) "q = BlockAfter lines" | (imp) "q = Impossible n"
    | (inner) inner where "FilterAny lines cs i = Some inner" "BlockAfter_build lines inner = Some q"
    using BlockAfter.prems(3) NL
    by (auto simp: bind_eq_Some_conv split: if_splits dest: MakeImpossible_SomeD)
  then show ?case
  proof cases
    case same
    then show ?thesis using BlockAfter.prems(1) by simp
  next
    case imp
    then show ?thesis by simp
  next
    case inner
    from BlockAfter.IH [OF wf' n1 inner(1)] have "wf_len (n - 1) inner" by simp
    from BlockAfter_build_wf [OF BlockAfter.prems(1,2) this] inner(2) show ?thesis by auto
  qed
next
  case (BlockBetween first second)
  from BlockBetween.prems obtain a where a: "NumLetters first = Some a" "a < n"
    "wf_len a first" "wf_len (n - a - 1) second"
    by (auto split: option.splits)
  from a(2) \<open>n < 25\<close> have bounds: "a < 25" "n - a - 1 < 25" by auto
  have NL: "NumLetters (BlockBetween first second) = Some n"
    using BlockBetween.prems(1) by (rule wf_len_NumLetters)
  consider (same) "q = BlockBetween first second" | (imp) "q = Impossible n"
    | (first) f where "FilterAny first cs i = Some f" "BlockBetween_build first second f second = Some q"
    | (second) s where "FilterAny second cs (i - a - 1) = Some s"
        "BlockBetween_build first second first s = Some q"
    using BlockBetween.prems(3) NL a(1)
    by (auto simp: bind_eq_Some_conv split: if_splits dest: MakeImpossible_SomeD)
  then show ?case
  proof cases
    case same
    then show ?thesis using BlockBetween.prems(1) by simp
  next
    case imp
    then show ?thesis by simp
  next
    case first
    from BlockBetween.IH(1) [OF a(3) bounds(1) first(1)] have "wf_len a f" by simp
    from BlockBetween_build_wf [OF BlockBetween.prems(1,2) a(1) this a(4)] first(2)
    show ?thesis by auto
  next
    case second
    from BlockBetween.IH(2) [OF a(4) bounds(2) second(1)] have "wf_len (n - a - 1) s" by simp
    from BlockBetween_build_wf [OF BlockBetween.prems(1,2) a(1,3) this] second(2)
    show ?thesis by auto
  qed
next
  case (Compound ps)
  show ?case
  proof (cases "IsFull cs")
    case True
    then show ?thesis using Compound.prems by auto
  next
    case False
    note ch = Compound_children_wf [OF Compound.prems(1)]
    define g where "g p = the (FilterAny p cs i)" for p
    from Compound.prems(3) False obtain fs where
      "those (map (\<lambda>p. FilterAny p cs i) ps) = Some fs"
      by (auto simp: bind_eq_Some_conv)
    from those_map_SomeD [OF this] have gp: "FilterAny p cs i = Some (g p)" if "p \<in> set ps" for p
      using that by (simp add: g_def)
    have NL: "NumLetters (Compound ps) = Some n"
      using Compound.prems(1) by (rule wf_len_NumLetters)
    have gwf: "wf_len n (g p) \<and> \<not> isCompound (g p)" if "p \<in> set ps" for p
      using Compound.IH [OF that ch(1) [OF that] Compound.prems(2) gp [OF that]] ch(3) [OF that]
      by simp
    have res: "FilterAny (Compound ps) cs i = Compound_result ps g n"
      by (rule FilterAny_Compound) (use ch(2) gp gwf NL False in auto)
    from Compound_result_wf [where g = g, OF Compound.prems(1,2) gwf] res Compound.prems(3)
    show ?thesis by auto
  qed
next
  case (Definite line)
  then show ?case
    by (auto simp: bind_eq_Some_conv split: if_splits dest: MakeImpossible_SomeD)
qed

lemma RemoveWordOptions_wf:
  "wf_len n p \<Longrightarrow> n < 25 \<Longrightarrow> RemoveWordOptions p ws = Some q \<Longrightarrow>
   wf_len n q \<and> (\<not> isCompound p \<longrightarrow> \<not> isCompound q)"
proof (induction p arbitrary: n q)
  case (Impossible x)
  then show ?case by auto
next
  case (Words allWords oi lm)
  from RemoveWordOptions_Words_wf [OF Words.prems] show ?case by simp
next
  case (BlockBefore lines)
  from BlockBefore.prems have wf': "wf_len (n - 1) lines" and n1: "n - 1 < 25" by auto
  from BlockBefore.prems(3) obtain inner where
    inner: "RemoveWordOptions lines ws = Some inner" "BlockBefore_build lines inner = Some q"
    by (auto simp: bind_eq_Some_conv)
  from BlockBefore.IH [OF wf' n1 inner(1)] have "wf_len (n - 1) inner" by simp
  from BlockBefore_build_wf [OF BlockBefore.prems(1,2) this] inner(2) show ?case by auto
next
  case (BlockAfter lines)
  from BlockAfter.prems have wf': "wf_len (n - 1) lines" and n1: "n - 1 < 25" by auto
  from BlockAfter.prems(3) obtain inner where
    inner: "RemoveWordOptions lines ws = Some inner" "BlockAfter_build lines inner = Some q"
    by (auto simp: bind_eq_Some_conv)
  from BlockAfter.IH [OF wf' n1 inner(1)] have "wf_len (n - 1) inner" by simp
  from BlockAfter_build_wf [OF BlockAfter.prems(1,2) this] inner(2) show ?case by auto
next
  case (BlockBetween first second)
  from BlockBetween.prems obtain a where a: "NumLetters first = Some a" "a < n"
    "wf_len a first" "wf_len (n - a - 1) second"
    by (auto split: option.splits)
  from a(2) \<open>n < 25\<close> have bounds: "a < 25" "n - a - 1 < 25" by auto
  from BlockBetween.prems(3) obtain f s where
    fs: "RemoveWordOptions first ws = Some f" "RemoveWordOptions second ws = Some s"
      "BlockBetween_build first second f s = Some q"
    by (auto simp: bind_eq_Some_conv)
  from BlockBetween.IH(1) [OF a(3) bounds(1) fs(1)] have f: "wf_len a f" by simp
  from BlockBetween.IH(2) [OF a(4) bounds(2) fs(2)] have s: "wf_len (n - a - 1) s" by simp
  from BlockBetween_build_wf [OF BlockBetween.prems(1,2) a(1) f s] fs(3)
  show ?case by auto
next
  case (Compound ps)
  note ch = Compound_children_wf [OF Compound.prems(1)]
  define g where "g p = the (RemoveWordOptions p ws)" for p
  from Compound.prems(3) obtain fs where
    "those (map (\<lambda>p. RemoveWordOptions p ws) ps) = Some fs"
    by (auto simp: bind_eq_Some_conv)
  from those_map_SomeD [OF this] have gp: "RemoveWordOptions p ws = Some (g p)" if "p \<in> set ps" for p
    using that by (simp add: g_def)
  have NL: "NumLetters (Compound ps) = Some n"
    using Compound.prems(1) by (rule wf_len_NumLetters)
  have gwf: "wf_len n (g p) \<and> \<not> isCompound (g p)" if "p \<in> set ps" for p
    using Compound.IH [OF that ch(1) [OF that] Compound.prems(2) gp [OF that]] ch(3) [OF that]
    by simp
  have res: "RemoveWordOptions (Compound ps) ws = Compound_result ps g n"
    by (rule RemoveWordOptions_Compound) (use ch(2) gp NL in auto)
  from Compound_result_wf [where g = g, OF Compound.prems(1,2) gwf] res Compound.prems(3)
  show ?case by auto
next
  case (Definite line)
  then show ?case
    by (auto simp: bind_eq_Some_conv split: if_splits dest: MakeImpossible_SomeD)
qed

lemma MakeWords_total: "n < 25 \<Longrightarrow> \<exists>q. MakeWords xs k n = Some q"
  using MakeWords_Iterate [of n xs k] by blast

lemma FilterAny_Words_total:
  assumes wf: "wf_len n (Words ws oi lm)" and n: "n < 25" and i: "i < n"
  shows "\<exists>q. FilterAny (Words ws oi lm) cs i = Some q"
proof -
  have NL: "NumLetters (Words ws oi lm) = Some n" using wf by (rule wf_len_NumLetters)
  from wf have len: "\<And>w. w \<in> set ws \<Longrightarrow> length w = n" and lm: "lm = [] \<or> length lm = n"
    by (auto simp: list_all_iff)
  have cf: "ContainsFunc ws (\<lambda>word. do { r \<leftarrow> byteAt word i; Some (\<not> Contains cs r) })
      = Some (\<exists>w\<in>set ws. \<not> Contains cs (of_char (w ! i)))"
    by (rule ContainsFunc_total) (use len i in \<open>simp add: byteAt_def\<close>)
  from Words_filter_loop_total [of ws i "Contains cs" oi 0] len i obtain k where
    k: "Words_filter_loop (Contains cs) i oi 0 ws
        = Some (filter (\<lambda>w. Contains cs (of_char (w ! i))) ws, k)"
    by auto
  from MakeWords_total [OF n] obtain q where
    q: "MakeWords (filter (\<lambda>w. Contains cs (of_char (w ! i))) ws) k n = Some q"
    by blast
  show ?thesis using lm i NL cf k q
    by (auto simp: Let_def simp del: NumLetters.simps)
qed

lemma FilterAny_total:
  "wf_len n p \<Longrightarrow> n < 25 \<Longrightarrow> i < n \<Longrightarrow> \<exists>q. FilterAny p cs i = Some q"
proof (induction p arbitrary: n i)
  case (Impossible x)
  then show ?case by simp
next
  case (Words ws oi lm)
  then show ?case by (rule FilterAny_Words_total)
next
  case (BlockBefore lines)
  from BlockBefore.prems have wf': "wf_len (n - 1) lines" and n1: "n - 1 < 25" by auto
  have NL: "NumLetters (BlockBefore lines) = Some n"
    using BlockBefore.prems(1) by (rule wf_len_NumLetters)
  show ?case
  proof (cases "i = 0")
    case True
    then show ?thesis using NL \<open>n < 25\<close> by (simp add: MakeImpossible_def)
  next
    case False
    with BlockBefore.prems have "i - 1 < n - 1" by auto
    from BlockBefore.IH [OF wf' n1 this] obtain inner where
      inner: "FilterAny lines cs (i - 1) = Some inner" by blast
    from BlockBefore_build_Iterate [OF NL \<open>n < 25\<close>, of inner] obtain q where
      "BlockBefore_build lines inner = Some q" by blast
    then show ?thesis using False inner by simp
  qed
next
  case (BlockAfter lines)
  from BlockAfter.prems have wf': "wf_len (n - 1) lines" and n1: "n - 1 < 25" by auto
  have NL: "NumLetters (BlockAfter lines) = Some n"
    using BlockAfter.prems(1) by (rule wf_len_NumLetters)
  have NL': "NumLetters lines = Some (n - 1)" using wf' by (rule wf_len_NumLetters)
  show ?case
  proof (cases "i = n - 1")
    case True
    then show ?thesis using NL NL' \<open>n < 25\<close> by (simp add: MakeImpossible_def)
  next
    case False
    with BlockAfter.prems have "i < n - 1" by auto
    from BlockAfter.IH [OF wf' n1 this] obtain inner where
      inner: "FilterAny lines cs i = Some inner" by blast
    from BlockAfter_build_Iterate [OF NL \<open>n < 25\<close>, of inner] obtain q where
      "BlockAfter_build lines inner = Some q" by blast
    then show ?thesis using False inner NL' by simp
  qed
next
  case (BlockBetween first second)
  from BlockBetween.prems obtain a where a: "NumLetters first = Some a" "a < n"
    "wf_len a first" "wf_len (n - a - 1) second"
    by (auto split: option.splits)
  from a(2) \<open>n < 25\<close> have bounds: "a < 25" "n - a - 1 < 25" by auto
  have NL: "NumLetters (BlockBetween first second) = Some n"
    using BlockBetween.prems(1) by (rule wf_len_NumLetters)
  have build: "\<exists>q. BlockBetween_build first second f s = Some q" for f s
    using BlockBetween_build_Iterate [OF NL \<open>n < 25\<close>, of f s] by blast
  show ?case
  proof (cases "i = a")
    case True
    then show ?thesis using NL a(1) \<open>n < 25\<close> by (simp add: MakeImpossible_def)
  next
    case False
    show ?thesis
    proof (cases "i < a")
      case True
      from BlockBetween.IH(1) [OF a(3) bounds(1) True] obtain f where
        "FilterAny first cs i = Some f" by blast
      then show ?thesis using True False a(1) build [of f second] by auto
    next
      case gt: False
      with False BlockBetween.prems a(2) have "i - a - 1 < n - a - 1" by auto
      from BlockBetween.IH(2) [OF a(4) bounds(2) this] obtain s where
        "FilterAny second cs (i - a - 1) = Some s" by blast
      then show ?thesis using gt False a(1) build [of first s] by auto
    qed
  qed
next
  case (Compound ps)
  show ?case
  proof (cases "IsFull cs")
    case True
    then show ?thesis by simp
  next
    case False
    note ch = Compound_children_wf [OF Compound.prems(1)]
    define g where "g p = the (FilterAny p cs i)" for p
    have gp: "FilterAny p cs i = Some (g p)" if "p \<in> set ps" for p
      using Compound.IH [OF that ch(1) [OF that] Compound.prems(2,3)] by (auto simp: g_def)
    have NL: "NumLetters (Compound ps) = Some n"
      using Compound.prems(1) by (rule wf_len_NumLetters)
    have gwf: "wf_len n (g p) \<and> \<not> isCompound (g p)" if "p \<in> set ps" for p
      using FilterAny_wf [OF ch(1) [OF that] Compound.prems(2) gp [OF that]] ch(3) [OF that]
      by simp
    have res: "FilterAny (Compound ps) cs i = Compound_result ps g n"
      by (rule FilterAny_Compound) (use ch(2) gp gwf NL False in auto)
    from Compound_result_wf [where g = g, OF Compound.prems(1,2) gwf] res
    show ?thesis by auto
  qed
next
  case (Definite line)
  then show ?case by (auto simp: MakeImpossible_def)
qed

lemma RemoveWordOptions_total:
  "wf_len n p \<Longrightarrow> n < 25 \<Longrightarrow> \<exists>q. RemoveWordOptions p ws = Some q"
proof (induction p arbitrary: n)
  case (Impossible x)
  then show ?case by simp
next
  case (Words allWords oi lm)
  have NL: "NumLetters (Words allWords oi lm) = Some n"
    using Words.prems(1) by (rule wf_len_NumLetters)
  have cf: "ContainsFunc ws
        (\<lambda>word. do { n \<leftarrow> NumLetters (Words allWords oi lm);
                      if length word \<noteq> n then Some False else Some (word \<in> set allWords) })
      = Some (\<exists>word\<in>set ws. length word = n \<and> word \<in> set allWords)"
    by (rule ContainsFunc_total) (simp add: NL del: NumLetters.simps)
  obtain fp k where loop: "Words_remove_loop ws oi 0 allWords = (fp, k)"
    by (cases "Words_remove_loop ws oi 0 allWords") auto
  from MakeWords_total [OF \<open>n < 25\<close>] obtain q where "MakeWords fp k n = Some q" by blast
  then show ?case using NL cf loop by (auto simp: Let_def simp del: NumLetters.simps)
next
  case (BlockBefore lines)
  from BlockBefore.prems have wf': "wf_len (n - 1) lines" and n1: "n - 1 < 25" by auto
  have NL: "NumLetters (BlockBefore lines) = Some n"
    using BlockBefore.prems(1) by (rule wf_len_NumLetters)
  from BlockBefore.IH [OF wf' n1] obtain inner where
    inner: "RemoveWordOptions lines ws = Some inner" by blast
  from BlockBefore_build_Iterate [OF NL \<open>n < 25\<close>, of inner] obtain q where
    "BlockBefore_build lines inner = Some q" by blast
  then show ?case using inner by simp
next
  case (BlockAfter lines)
  from BlockAfter.prems have wf': "wf_len (n - 1) lines" and n1: "n - 1 < 25" by auto
  have NL: "NumLetters (BlockAfter lines) = Some n"
    using BlockAfter.prems(1) by (rule wf_len_NumLetters)
  from BlockAfter.IH [OF wf' n1] obtain inner where
    inner: "RemoveWordOptions lines ws = Some inner" by blast
  from BlockAfter_build_Iterate [OF NL \<open>n < 25\<close>, of inner] obtain q where
    "BlockAfter_build lines inner = Some q" by blast
  then show ?case using inner by simp
next
  case (BlockBetween first second)
  from BlockBetween.prems obtain a where a: "NumLetters first = Some a" "a < n"
    "wf_len a first" "wf_len (n - a - 1) second"
    by (auto split: option.splits)
  from a(2) \<open>n < 25\<close> have bounds: "a < 25" "n - a - 1 < 25" by auto
  have NL: "NumLetters (BlockBetween first second) = Some n"
    using BlockBetween.prems(1) by (rule wf_len_NumLetters)
  from BlockBetween.IH(1) [OF a(3) bounds(1)] obtain f where
    f: "RemoveWordOptions first ws = Some f" by blast
  from BlockBetween.IH(2) [OF a(4) bounds(2)] obtain s where
    s: "RemoveWordOptions second ws = Some s" by blast
  from BlockBetween_build_Iterate [OF NL \<open>n < 25\<close>, of f s] obtain q where
    "BlockBetween_build first second f s = Some q" by blast
  then show ?case using f s by simp
next
  case (Compound ps)
  note ch = Compound_children_wf [OF Compound.prems(1)]
  define g where "g p = the (RemoveWordOptions p ws)" for p
  have gp: "RemoveWordOptions p ws = Some (g p)" if "p \<in> set ps" for p
    using Compound.IH [OF that ch(1) [OF that] Compound.prems(2)] by (auto simp: g_def)
  have NL: "NumLetters (Compound ps) = Some n"
    using Compound.prems(1) by (rule wf_len_NumLetters)
  have gwf: "wf_len n (g p) \<and> \<not> isCompound (g p)" if "p \<in> set ps" for p
    using RemoveWordOptions_wf [OF ch(1) [OF that] Compound.prems(2) gp [OF that]] ch(3) [OF that]
    by simp
  have res: "RemoveWordOptions (Compound ps) ws = Compound_result ps g n"
    by (rule RemoveWordOptions_Compound) (use ch(2) gp NL in auto)
  from Compound_result_wf [where g = g, OF Compound.prems(1,2) gwf] res
  show ?case by auto
next
  case (Definite line)
  have "ContainsFunc ws
        (\<lambda>word. if length word \<noteq> length (Line line) then Some False
                 else Some (word \<in> set (LineWords line)))
      = Some (\<exists>word\<in>set ws. length word = length (Line line) \<and> word \<in> set (LineWords line))"
    by (rule ContainsFunc_total) simp
  then show ?case using Definite.prems by (auto simp: MakeImpossible_def)
qed

text \<open>
  C10. The value that \<^verbatim>\<open>Filter\<close>, \<^verbatim>\<open>FilterAny\<close> or \<^verbatim>\<open>RemoveWordOptions\<close> returns
  for a well-formed \<open>p\<close> has the \<^verbatim>\<open>NumLetters()\<close> of \<open>p\<close>, whatever the constraint,
  the index and the word list are, also when the result is the impossible value. The two
  filters return a value for every index below \<^verbatim>\<open>p.NumLetters()\<close>, and
  \<^verbatim>\<open>RemoveWordOptions\<close> always does.
\<close>

theorem restrictions_preserve_NumLetters:
  assumes "well_formed p" and "NumLetters p = Some n"
  shows "(\<forall>q. Filter p ch i = Some q \<longrightarrow> NumLetters q = Some n)
       \<and> (\<forall>q. FilterAny p cs i = Some q \<longrightarrow> NumLetters q = Some n)
       \<and> (\<forall>q. RemoveWordOptions p ws = Some q \<longrightarrow> NumLetters q = Some n)
       \<and> (i < n \<longrightarrow> Filter p ch i \<noteq> None \<and> FilterAny p cs i \<noteq> None)
       \<and> RemoveWordOptions p ws \<noteq> None"
proof -
  from well_formed_wf_len [OF assms] have wf: "wf_len n p" and n: "n < 25" by auto
  have 1: "NumLetters q = Some n" if "Filter p ch i = Some q" for q
    using Filter_wf [OF wf n that] by (simp add: wf_len_NumLetters)
  have 2: "NumLetters q = Some n" if "FilterAny p cs i = Some q" for q
    using FilterAny_wf [OF wf n that] by (simp add: wf_len_NumLetters)
  have 3: "NumLetters q = Some n" if "RemoveWordOptions p ws = Some q" for q
    using RemoveWordOptions_wf [OF wf n that] by (simp add: wf_len_NumLetters)
  have 4: "Filter p ch i \<noteq> None \<and> FilterAny p cs i \<noteq> None" if "i < n"
    using Filter_Iterate_list [OF wf n that, of ch] FilterAny_total [OF wf n that, of cs] by auto
  have 5: "RemoveWordOptions p ws \<noteq> None"
    using RemoveWordOptions_total [OF wf n, of ws] by auto
  from 1 2 3 4 5 show ?thesis by blast
qed

definition onlyO :: CharSet where
  "onlyO = fst (Add NewCharSet 111)"

theorem restrictions_preserve_NumLetters_witness:
  "well_formed catDog \<and> NumLetters catDog = Some 3
   \<and> Filter catDog 122 0 = Some (Impossible 3) \<and> NumLetters (Impossible 3) = Some 3
   \<and> (\<exists>q. FilterAny catDog onlyO 1 = Some q \<and> NumLetters q = Some 3)
   \<and> (\<exists>q. RemoveWordOptions catDog [''cat'', ''dog''] = Some q \<and> NumLetters q = Some 3)"
proof -
  have wf: "well_formed catDog" and nl: "NumLetters catDog = Some 3"
    using well_formed_catDog by auto
  have f: "Filter catDog 122 0 = Some (Impossible 3)"
    by (simp add: catDog_def kBlocked_def byteAt_def MakeCompound_Nil MakeImpossible_def)
  from restrictions_preserve_NumLetters [OF wf nl, of 122 0 onlyO "[''cat'', ''dog'']"]
    restrictions_preserve_NumLetters [OF wf nl, of 122 1 onlyO "[''cat'', ''dog'']"]
    wf nl f
  show ?thesis by auto
qed

subsection \<open>RemoveWordOptions applied twice\<close>

lemma RemoveWordOptions_Definite:
  "RemoveWordOptions (Definite line) ws =
     (if \<exists>word\<in>set ws. length word = length (Line line) \<and> word \<in> set (LineWords line)
      then MakeImpossible (length (Line line)) else Some (Definite line))"
proof -
  have "ContainsFunc ws
        (\<lambda>word. if length word \<noteq> length (Line line) then Some False
                 else Some (word \<in> set (LineWords line)))
      = Some (\<exists>word\<in>set ws. length word = length (Line line) \<and> word \<in> set (LineWords line))"
    by (rule ContainsFunc_total) simp
  then show ?thesis by auto
qed

lemma RemoveWordOptions_Words_idem:
  assumes wf: "wf_len n (Words allWords oi lm)" and n: "n < 25"
    and q: "RemoveWordOptions (Words allWords oi lm) ws = Some q"
  shows "RemoveWordOptions q ws = Some q"
proof -
  let ?w = "Words allWords oi lm"
  have NL: "NumLetters ?w = Some n" using wf by (rule wf_len_NumLetters)
  from wf have len: "\<And>w. w \<in> set allWords \<Longrightarrow> length w = n"
    by (auto simp: list_all_iff)
  have cf: "ContainsFunc ws
        (\<lambda>word. do { n \<leftarrow> NumLetters ?w;
                      if length word \<noteq> n then Some False else Some (word \<in> set allWords) })
      = Some (\<exists>word\<in>set ws. length word = n \<and> word \<in> set allWords)"
    by (rule ContainsFunc_total) (simp add: NL del: NumLetters.simps)
  obtain fp k where loop: "Words_remove_loop ws oi 0 allWords = (fp, k)"
    by (cases "Words_remove_loop ws oi 0 allWords") auto
  from Words_remove_loop_fst [of ws oi 0 allWords] loop
  have fp: "fp = filter (\<lambda>p. p \<notin> set ws) allWords" by simp
  show ?thesis
  proof (cases "\<exists>word\<in>set ws. length word = n \<and> word \<in> set allWords")
    case False
    with q cf have "q = ?w" by (simp add: Let_def del: NumLetters.simps)
    with q show ?thesis by simp
  next
    case True
    with q cf loop NL have mw: "MakeWords fp k n = Some q"
      by (simp add: Let_def del: NumLetters.simps)
    consider "fp = []" | x where "fp = [x]" | "2 \<le> length fp"
      by (cases fp rule: remdups_adj.cases) auto
    then show ?thesis
    proof cases
      case 1
      with mw show ?thesis by (auto dest: MakeImpossible_SomeD)
    next
      case 2
      have "x \<in> set (filter (\<lambda>p. p \<notin> set ws) allWords)" using 2 fp by simp
      then have x: "x \<notin> set ws" by simp
      from mw 2 have "q = Definite \<lparr>Line = runes x, LineWords = [x]\<rparr>"
        by (simp add: MakeDefinite_def)
      then show ?thesis using x by (auto simp: RemoveWordOptions_Definite simp del: RemoveWordOptions.simps)
    next
      case 3
      then obtain y ys where ys: "fp = y # ys" by (cases fp) auto
      from 3 mw have q': "q = Words fp k []"
        by (cases fp rule: remdups_adj.cases) auto
      have NL': "NumLetters (Words fp k []) = Some (length y)" using ys by simp
      have "ContainsFunc ws
            (\<lambda>word. do { n \<leftarrow> NumLetters (Words fp k []);
                          if length word \<noteq> n then Some False else Some (word \<in> set fp) })
          = Some (\<exists>word\<in>set ws. length word = length y \<and> word \<in> set fp)"
        by (rule ContainsFunc_total) (simp add: NL' del: NumLetters.simps)
      also have "\<dots> = Some False" using fp by auto
      finally show ?thesis unfolding q' by (simp add: Let_def del: NumLetters.simps)
    qed
  qed
qed

lemma BlockBefore_build_same:
  "\<not> isImpossible x \<Longrightarrow> BlockBefore_build x x = Some (BlockBefore x)"
  by (simp add: BlockBefore_build_def)

lemma BlockAfter_build_same:
  "\<not> isImpossible x \<Longrightarrow> BlockAfter_build x x = Some (BlockAfter x)"
  by (simp add: BlockAfter_build_def)

lemma BlockBetween_build_same:
  "\<not> isImpossible x \<Longrightarrow> \<not> isImpossible y \<Longrightarrow>
   BlockBetween_build x y x y = Some (BlockBetween x y)"
  by (simp add: BlockBetween_build_def)

lemma BlockBefore_build_cases:
  assumes "BlockBefore_build lines inner = Some q"
  obtains "isImpossible q" | "q = BlockBefore inner" "\<not> isImpossible inner"
  using assms
  by (auto simp: BlockBefore_build_def bind_eq_Some_conv split: if_splits dest!: MakeImpossible_SomeD)

lemma BlockAfter_build_cases:
  assumes "BlockAfter_build lines inner = Some q"
  obtains "isImpossible q" | "q = BlockAfter inner" "\<not> isImpossible inner"
  using assms
  by (auto simp: BlockAfter_build_def bind_eq_Some_conv split: if_splits dest!: MakeImpossible_SomeD)

lemma BlockBetween_build_cases:
  assumes "BlockBetween_build first second f s = Some q"
  obtains "isImpossible q" | "q = BlockBetween f s" "\<not> isImpossible f" "\<not> isImpossible s"
  using assms
  by (auto simp: BlockBetween_build_def bind_eq_Some_conv split: if_splits dest!: MakeImpossible_SomeD)

lemma RemoveWordOptions_Impossible: "isImpossible q \<Longrightarrow> RemoveWordOptions q ws = Some q"
  by (cases q) auto

lemma RemoveWordOptions_idem:
  "wf_len n p \<Longrightarrow> n < 25 \<Longrightarrow> RemoveWordOptions p ws = Some q \<Longrightarrow>
   RemoveWordOptions q ws = Some q"
proof (induction p arbitrary: n q)
  case (Impossible x)
  then show ?case by auto
next
  case (Words allWords oi lm)
  then show ?case by (rule RemoveWordOptions_Words_idem)
next
  case (BlockBefore lines)
  from BlockBefore.prems have wf': "wf_len (n - 1) lines" and n1: "n - 1 < 25" by auto
  from BlockBefore.prems(3) obtain inner where
    inner: "RemoveWordOptions lines ws = Some inner" "BlockBefore_build lines inner = Some q"
    by (auto simp: bind_eq_Some_conv)
  from BlockBefore.IH [OF wf' n1 inner(1)] have idem: "RemoveWordOptions inner ws = Some inner" .
  from inner(2) show ?case
  proof (cases rule: BlockBefore_build_cases)
    case 1
    then show ?thesis by (rule RemoveWordOptions_Impossible)
  next
    case 2
    then show ?thesis using idem by (simp add: BlockBefore_build_same)
  qed
next
  case (BlockAfter lines)
  from BlockAfter.prems have wf': "wf_len (n - 1) lines" and n1: "n - 1 < 25" by auto
  from BlockAfter.prems(3) obtain inner where
    inner: "RemoveWordOptions lines ws = Some inner" "BlockAfter_build lines inner = Some q"
    by (auto simp: bind_eq_Some_conv)
  from BlockAfter.IH [OF wf' n1 inner(1)] have idem: "RemoveWordOptions inner ws = Some inner" .
  from inner(2) show ?case
  proof (cases rule: BlockAfter_build_cases)
    case 1
    then show ?thesis by (rule RemoveWordOptions_Impossible)
  next
    case 2
    then show ?thesis using idem by (simp add: BlockAfter_build_same)
  qed
next
  case (BlockBetween first second)
  from BlockBetween.prems obtain a where a: "NumLetters first = Some a" "a < n"
    "wf_len a first" "wf_len (n - a - 1) second"
    by (auto split: option.splits)
  from a(2) \<open>n < 25\<close> have bounds: "a < 25" "n - a - 1 < 25" by auto
  from BlockBetween.prems(3) obtain f s where
    fs: "RemoveWordOptions first ws = Some f" "RemoveWordOptions second ws = Some s"
      "BlockBetween_build first second f s = Some q"
    by (auto simp: bind_eq_Some_conv)
  from BlockBetween.IH(1) [OF a(3) bounds(1) fs(1)] have f: "RemoveWordOptions f ws = Some f" .
  from BlockBetween.IH(2) [OF a(4) bounds(2) fs(2)] have s: "RemoveWordOptions s ws = Some s" .
  from fs(3) show ?case
  proof (cases rule: BlockBetween_build_cases)
    case 1
    then show ?thesis by (rule RemoveWordOptions_Impossible)
  next
    case 2
    then show ?thesis using f s by (simp add: BlockBetween_build_same)
  qed
next
  case (Compound ps)
  note ch = Compound_children_wf [OF Compound.prems(1)]
  define g where "g p = the (RemoveWordOptions p ws)" for p
  from Compound.prems(3) obtain fs where
    "those (map (\<lambda>p. RemoveWordOptions p ws) ps) = Some fs"
    by (auto simp: bind_eq_Some_conv)
  from those_map_SomeD [OF this] have gp: "RemoveWordOptions p ws = Some (g p)" if "p \<in> set ps" for p
    using that by (simp add: g_def)
  have NL: "NumLetters (Compound ps) = Some n"
    using Compound.prems(1) by (rule wf_len_NumLetters)
  have gwf: "wf_len n (g p) \<and> \<not> isCompound (g p)" if "p \<in> set ps" for p
    using RemoveWordOptions_wf [OF ch(1) [OF that] Compound.prems(2) gp [OF that]] ch(3) [OF that]
    by simp
  have gidem: "RemoveWordOptions (g p) ws = Some (g p)" if "p \<in> set ps" for p
    using Compound.IH [OF that ch(1) [OF that] Compound.prems(2) gp [OF that]] .
  have res: "RemoveWordOptions (Compound ps) ws = Compound_result ps g n"
    by (rule RemoveWordOptions_Compound) (use ch(2) gp NL in auto)
  with Compound.prems(3) have q: "Compound_result ps g n = Some q" by simp
  show ?case
  proof (cases "map g ps = ps")
    case True
    with q have "q = Compound ps" by (simp add: Compound_result_def)
    with res q show ?thesis by simp
  next
    case False
    let ?xs = "nonImpossible (map g ps)"
    have ok: "wf_len n x \<and> \<not> isImpossible x \<and> \<not> isCompound x \<and> RemoveWordOptions x ws = Some x"
      if "x \<in> set ?xs" for x
      using that gwf gidem by (auto simp: nonImpossible_def)
    then have "MakeCompound ?xs n =
        (case ?xs of [] \<Rightarrow> MakeImpossible n | [x] \<Rightarrow> Some x | _ \<Rightarrow> Some (Compound ?xs))"
      by (intro MakeCompound_clean) auto
    with q False have mc:
      "(case ?xs of [] \<Rightarrow> MakeImpossible n | [x] \<Rightarrow> Some x | _ \<Rightarrow> Some (Compound ?xs)) = Some q"
      by (simp add: Compound_result_def)
    consider "?xs = []" | x where "?xs = [x]" | "2 \<le> length ?xs"
      by (cases ?xs rule: remdups_adj.cases) auto
    then show ?thesis
    proof cases
      case 1
      with mc show ?thesis by (auto dest: MakeImpossible_SomeD)
    next
      case 2
      with mc ok [of x] show ?thesis by simp
    next
      case 3
      with mc have q': "q = Compound ?xs"
        by (cases ?xs rule: remdups_adj.cases) auto
      have wfq: "wf_len n (Compound ?xs)" using 3 ok by (simp add: list_all_iff)
      have "RemoveWordOptions (Compound ?xs) ws = Compound_result ?xs (\<lambda>x. x) n"
        by (rule RemoveWordOptions_Compound) (use ok wfq wf_len_NumLetters in auto)
      then show ?thesis unfolding q' by (simp add: Compound_result_def)
    qed
  qed
next
  case (Definite line)
  then show ?case
    by (auto simp: RemoveWordOptions_Definite RemoveWordOptions_Impossible
        simp del: RemoveWordOptions.simps split: if_splits dest!: MakeImpossible_SomeD)
qed


text \<open>
  C7. \<^verbatim>\<open>RemoveWordOptions\<close> is idempotent: for a well-formed \<open>p\<close> and a word list
  \<open>W\<close>, the call \<^verbatim>\<open>p.RemoveWordOptions(W)\<close> returns a value \<open>q\<close>, and
  \<^verbatim>\<open>q.RemoveWordOptions(W)\<close> returns \<open>q\<close> itself, so both denote the same lines.
\<close>

theorem RemoveWordOptions_idempotent:
  assumes "well_formed p"
  shows "\<exists>q r. RemoveWordOptions p ws = Some q \<and> RemoveWordOptions q ws = Some r
           \<and> r = q \<and> Iterate r = Iterate q"
proof -
  from assms obtain n where "NumLetters p = Some n"
    by (auto simp: well_formed_def split: option.splits)
  from well_formed_wf_len [OF assms this] have wf: "wf_len n p" and n: "n < 25" by auto
  from RemoveWordOptions_total [OF wf n, of ws] obtain q where
    q: "RemoveWordOptions p ws = Some q" by blast
  from RemoveWordOptions_idem [OF wf n q] q show ?thesis by simp
qed

theorem RemoveWordOptions_idempotent_witness:
  "well_formed catDog
   \<and> RemoveWordOptions catDog [''cat'', ''dog'']
       = Some (Compound [Words [''cot'', ''car''] 2 [],
                         Definite \<lparr>Line = runes ''dot'', LineWords = [''dot'']\<rparr>])
   \<and> (\<exists>q r. RemoveWordOptions catDog [''cat'', ''dog''] = Some q
         \<and> RemoveWordOptions q [''cat'', ''dog''] = Some r \<and> r = q \<and> Iterate r = Iterate q)"
proof -
  have wf: "well_formed catDog" using well_formed_catDog by simp
  have v: "RemoveWordOptions catDog [''cat'', ''dog'']
       = Some (Compound [Words [''cot'', ''car''] 2 [],
                         Definite \<lparr>Line = runes ''dot'', LineWords = [''dot'']\<rparr>])"
    by (simp add: catDog_def MakeDefinite_def MakeCompound_many)
  from RemoveWordOptions_idempotent [OF wf, of "[''cat'', ''dog'']"] wf v show ?thesis
    by simp
qed

subsection \<open>MakeChoice\<close>

lemma wrap64_id: "- (2 ^ 63) \<le> x \<Longrightarrow> x < 2 ^ 63 \<Longrightarrow> wrap64 x = x"
  by (simp add: wrap64_def)

lemma length_Iterate_BlockBetween:
  "length (Iterate (BlockBetween f s)) = length (Iterate f) * length (Iterate s)"
  by (simp add: length_concat o_def sum_list_triv)

lemma foldl_wrap64:
  "(\<And>p. p \<in> set ps \<Longrightarrow> MaxPossibilities p = int (length (Iterate p))) \<Longrightarrow> 0 \<le> a \<Longrightarrow>
   a + int (length (concat (map Iterate ps))) < 2 ^ 63 \<Longrightarrow>
   foldl (\<lambda>sum p. wrap64 (sum + MaxPossibilities p)) a ps
     = a + int (length (concat (map Iterate ps)))"
proof (induction ps arbitrary: a)
  case Nil
  then show ?case by simp
next
  case (Cons p ps)
  have p: "MaxPossibilities p = int (length (Iterate p))" using Cons.prems(1) by simp
  have w: "wrap64 (a + MaxPossibilities p) = a + int (length (Iterate p))"
    unfolding p using Cons.prems(2,3) by (intro wrap64_id) auto
  have "foldl (\<lambda>sum p. wrap64 (sum + MaxPossibilities p)) (a + int (length (Iterate p))) ps
      = (a + int (length (Iterate p))) + int (length (concat (map Iterate ps)))"
    using Cons.prems by (intro Cons.IH) auto
  then show ?case by (simp add: w)
qed

lemma MaxPossibilities_exact:
  "length (Iterate p) < 2 ^ 63 \<Longrightarrow> MaxPossibilities p = int (length (Iterate p))"
proof (induction p)
  case (BlockBetween f s)
  let ?F = "length (Iterate f)" and ?S = "length (Iterate s)"
  from BlockBetween.prems have prod: "?F * ?S < 2 ^ 63"
    by (simp only: length_Iterate_BlockBetween)
  show ?case
  proof (cases "?F = 0 \<or> ?S = 0")
    case True
    then have "MaxPossibilities f = 0 \<or> MaxPossibilities s = 0"
      using BlockBetween.IH by auto
    then have "MaxPossibilities f * MaxPossibilities s = 0" by auto
    then show ?thesis using True
      by (simp only: MaxPossibilities.simps length_Iterate_BlockBetween) (auto simp: wrap64_def)
  next
    case False
    then have "?F \<le> ?F * ?S" "?S \<le> ?F * ?S" by (auto simp: Suc_le_eq)
    with prod have "?F < 2 ^ 63" "?S < 2 ^ 63" by linarith+
    with BlockBetween.IH have eq: "MaxPossibilities f = int ?F" "MaxPossibilities s = int ?S"
      by auto
    have "wrap64 (int ?F * int ?S) = int ?F * int ?S"
    proof (rule wrap64_id)
      show "- (2 ^ 63) \<le> int ?F * int ?S" by (smt (verit) mult_nonneg_nonneg of_nat_0_le_iff zero_le_power)
      from prod have "int (?F * ?S) < int (2 ^ 63)" by (simp only: of_nat_less_iff)
      then show "int ?F * int ?S < 2 ^ 63" by simp
    qed
    then show ?thesis
      by (simp only: MaxPossibilities.simps length_Iterate_BlockBetween eq) simp
  qed
next
  case (Compound ps)
  have "foldl (\<lambda>sum p. wrap64 (sum + MaxPossibilities p)) 0 ps
      = 0 + int (length (concat (map Iterate ps)))"
  proof (rule foldl_wrap64)
    fix p assume p: "p \<in> set ps"
    then have "length (Iterate p) \<le> length (concat (map Iterate ps))"
      by (induction ps) auto
    with Compound.prems have "length (Iterate p) < 2 ^ 63" by simp
    with Compound.IH p show "MaxPossibilities p = int (length (Iterate p))" by blast
  next
    from Compound.prems have "int (length (concat (map Iterate ps))) < int (2 ^ 63)"
      by (simp only: of_nat_less_iff Iterate.simps)
    then show "0 + int (length (concat (map Iterate ps))) < 2 ^ 63" by simp
  qed simp
  then show ?case by simp
qed auto

lemma Compound_MakeChoice_loop_range:
  "Compound_MakeChoice_loop half len i acc rest splitIdx = splitIdx
   \<or> (i < Compound_MakeChoice_loop half len i acc rest splitIdx
      \<and> Compound_MakeChoice_loop half len i acc rest splitIdx < len)"
proof (induction rest arbitrary: i acc)
  case Nil
  then show ?case by simp
next
  case (Cons p rest)
  show ?case
    using Cons.IH [of "i + 1" "wrap64 (acc + MaxPossibilities p)"]
    by (auto simp: Let_def)
qed

lemma mset_concat_map_add:
  "mset xs + mset ys = mset zs \<Longrightarrow>
   mset (concat (map g xs)) + mset (concat (map g ys)) = mset (concat (map g zs))"
proof -
  have eq: "mset (concat (map g us)) = (\<Sum>x\<in>#mset us. mset (g x))" for us
    by (induction us) auto
  assume "mset xs + mset ys = mset zs"
  then have "(\<Sum>x\<in>#mset zs. mset (g x)) = (\<Sum>x\<in>#mset xs + mset ys. mset (g x))" by simp
  then show ?thesis by (simp add: eq)
qed

lemma mset_concat_map_pointwise:
  "(\<And>x. mset (h1 x) + mset (h2 x) = mset (h x)) \<Longrightarrow>
   mset (concat (map h1 xs)) + mset (concat (map h2 xs)) = mset (concat (map h xs))"
proof (induction xs)
  case Nil
  then show ?case by simp
next
  case (Cons x xs)
  from Cons.IH [OF Cons.prems] Cons.prems [of x] show ?case
    by (simp add: ac_simps)
qed

lemma concat_map_Iterate_nonempty:
  assumes "xs \<noteq> []" and "\<And>x. x \<in> set xs \<Longrightarrow> Iterate x \<noteq> []"
  shows "concat (map Iterate xs) \<noteq> []"
  using assms by (cases xs) auto

lemma mset_map_add:
  "mset xs + mset ys = mset zs \<Longrightarrow> mset (map f xs) + mset (map f ys) = mset (map f zs)"
  by (metis image_mset_union mset_map)

lemma MakeChoice_Words:
  assumes wf: "wf_len n (Words ws oi lm)" and n: "n < 25"
  shows "\<exists>c. MakeChoice (Words ws oi lm) = Some c
     \<and> Iterate (Choice c) \<noteq> [] \<and> Iterate (Remaining c) \<noteq> []
     \<and> mset (Iterate (Choice c)) + mset (Iterate (Remaining c)) = mset (Iterate (Words ws oi lm))"
proof -
  let ?mk = "\<lambda>word. \<lparr>Line = runes word, LineWords = [word]\<rparr>"
  let ?k = "length ws div 2"
  from wf have two: "2 \<le> length ws" by simp
  then have k: "0 < ?k" "?k < length ws" by auto
  have NL: "NumLetters (Words ws oi lm) = Some n" using wf by (rule wf_len_NumLetters)
  define i1 where "i1 = (if oi < ?k then oi else ?k)"
  define i2 where "i2 = (if oi < ?k then 0 else oi - ?k)"
  from MakeWords_Iterate [OF n, of "take ?k ws" i1] obtain q1 where
    q1: "MakeWords (take ?k ws) i1 n = Some q1" "Iterate q1 = map ?mk (take ?k ws)" by blast
  from MakeWords_Iterate [OF n, of "drop ?k ws" i2] obtain q2 where
    q2: "MakeWords (drop ?k ws) i2 n = Some q2" "Iterate q2 = map ?mk (drop ?k ws)" by blast
  have mc: "MakeChoice (Words ws oi lm) = Some \<lparr>Choice = q1, Remaining = q2\<rparr>"
    using two NL q1(1) q2(1)
    by (auto simp: Let_def i1_def i2_def min_def simp del: NumLetters.simps)
  have "mset (map ?mk (take ?k ws)) + mset (map ?mk (drop ?k ws)) = mset (map ?mk ws)"
    by (metis append_take_drop_id map_append mset_append)
  moreover from k have "take ?k ws \<noteq> []" "drop ?k ws \<noteq> []" by auto
  ultimately show ?thesis using mc q1(2) q2(2) by (simp del: MakeChoice.simps)
qed

lemma MakeChoice_split:
  "wf_len n p \<Longrightarrow> n < 25 \<Longrightarrow> 1 < MaxPossibilities p \<Longrightarrow> length (Iterate p) < 2 ^ 63 \<Longrightarrow>
   \<exists>c. MakeChoice p = Some c
     \<and> Iterate (Choice c) \<noteq> [] \<and> Iterate (Remaining c) \<noteq> []
     \<and> mset (Iterate (Choice c)) + mset (Iterate (Remaining c)) = mset (Iterate p)"
proof (induction p arbitrary: n)
  case (Impossible x)
  then show ?case by simp
next
  case (Words ws oi lm)
  from MakeChoice_Words [OF Words.prems(1,2)] show ?case .
next
  case (BlockBefore lines)
  from BlockBefore.prems have "wf_len (n - 1) lines" "n - 1 < 25" "1 < MaxPossibilities lines"
    "length (Iterate lines) < 2 ^ 63" by auto
  from BlockBefore.IH [OF this] obtain c where c: "MakeChoice lines = Some c"
    "Iterate (Choice c) \<noteq> []" "Iterate (Remaining c) \<noteq> []"
    "mset (Iterate (Choice c)) + mset (Iterate (Remaining c)) = mset (Iterate lines)"
    by blast
  from c(4) have "mset (Iterate (BlockBefore (Choice c))) + mset (Iterate (BlockBefore (Remaining c)))
      = mset (Iterate (BlockBefore lines))"
    unfolding Iterate.simps by (rule mset_map_add)
  then show ?case using c(1,2,3) by simp
next
  case (BlockAfter lines)
  from BlockAfter.prems have "wf_len (n - 1) lines" "n - 1 < 25" "1 < MaxPossibilities lines"
    "length (Iterate lines) < 2 ^ 63" by auto
  from BlockAfter.IH [OF this] obtain c where c: "MakeChoice lines = Some c"
    "Iterate (Choice c) \<noteq> []" "Iterate (Remaining c) \<noteq> []"
    "mset (Iterate (Choice c)) + mset (Iterate (Remaining c)) = mset (Iterate lines)"
    by blast
  from c(4) have "mset (Iterate (BlockAfter (Choice c))) + mset (Iterate (BlockAfter (Remaining c)))
      = mset (Iterate (BlockAfter lines))"
    unfolding Iterate.simps by (rule mset_map_add)
  then show ?case using c(1,2,3) by simp
next
  case (BlockBetween first second)
  let ?F = "length (Iterate first)" and ?S = "length (Iterate second)"
  let ?c = "\<lambda>f s. \<lparr>Line = (Line f @ [kBlocked]) @ Line s, LineWords = LineWords f @ LineWords s\<rparr>"
  from BlockBetween.prems obtain a where a: "NumLetters first = Some a" "a < n"
    "wf_len a first" "wf_len (n - a - 1) second" "\<not> isImpossible first" "\<not> isImpossible second"
    by (auto split: option.splits)
  from a(2) \<open>n < 25\<close> have bounds: "a < 25" "n - a - 1 < 25" by auto
  from wf_len_Iterate_nonempty [OF a(3,5)] wf_len_Iterate_nonempty [OF a(4,6)]
  have ne: "Iterate first \<noteq> []" "Iterate second \<noteq> []" .
  then have pos: "0 < ?F" "0 < ?S" by auto
  from BlockBetween.prems(4) have prod: "?F * ?S < 2 ^ 63"
    by (simp only: length_Iterate_BlockBetween)
  from pos have "?F \<le> ?F * ?S" "?S \<le> ?F * ?S" by (auto simp: Suc_le_eq)
  with prod have small: "?F < 2 ^ 63" "?S < 2 ^ 63" by linarith+
  from MaxPossibilities_exact [OF small(1)] MaxPossibilities_exact [OF small(2)]
  have mp: "MaxPossibilities first = int ?F" "MaxPossibilities second = int ?S" .
  from MaxPossibilities_exact [OF BlockBetween.prems(4)] BlockBetween.prems(3)
  have big: "1 < ?F * ?S" by (simp only: length_Iterate_BlockBetween)
  show ?case
  proof (cases "MaxPossibilities first > MaxPossibilities second")
    case True
    with mp have "?S < ?F" by simp
    with pos(2) have "1 < ?F" by linarith
    with mp have "1 < MaxPossibilities first" by simp
    from BlockBetween.IH(1) [OF a(3) bounds(1) this small(1)] obtain c where c:
      "MakeChoice first = Some c"
      "Iterate (Choice c) \<noteq> []" "Iterate (Remaining c) \<noteq> []"
      "mset (Iterate (Choice c)) + mset (Iterate (Remaining c)) = mset (Iterate first)"
      by blast
    have m: "mset (Iterate (BlockBetween (Choice c) second))
        + mset (Iterate (BlockBetween (Remaining c) second))
        = mset (Iterate (BlockBetween first second))"
      unfolding Iterate.simps by (rule mset_concat_map_add) (rule c(4))
    have n1: "Iterate (BlockBetween x second) \<noteq> []" if "Iterate x \<noteq> []" for x
      using that ne(2) length_Iterate_BlockBetween [of x second] by (metis length_0_conv mult_is_0)
    show ?thesis using True c(1) m n1 [OF c(2)] n1 [OF c(3)]
      by (simp del: Iterate.simps)
  next
    case False
    with mp have le: "?F \<le> ?S" by simp
    have "1 < ?S"
    proof (rule ccontr)
      assume "\<not> 1 < ?S"
      with pos le have "?F = 1" "?S = 1" by linarith+
      with big show False by simp
    qed
    with mp have "1 < MaxPossibilities second" by simp
    from BlockBetween.IH(2) [OF a(4) bounds(2) this small(2)] obtain c where c:
      "MakeChoice second = Some c"
      "Iterate (Choice c) \<noteq> []" "Iterate (Remaining c) \<noteq> []"
      "mset (Iterate (Choice c)) + mset (Iterate (Remaining c)) = mset (Iterate second)"
      by blast
    have m: "mset (Iterate (BlockBetween first (Choice c)))
        + mset (Iterate (BlockBetween first (Remaining c)))
        = mset (Iterate (BlockBetween first second))"
      unfolding Iterate.simps
    proof (rule mset_concat_map_pointwise)
      fix x
      from c(4) show "mset (map (?c x) (Iterate (Choice c))) + mset (map (?c x) (Iterate (Remaining c)))
          = mset (map (?c x) (Iterate second))"
        by (rule mset_map_add)
    qed
    have n1: "Iterate (BlockBetween first x) \<noteq> []" if "Iterate x \<noteq> []" for x
      using that ne(1) length_Iterate_BlockBetween [of first x] by (metis length_0_conv mult_is_0)
    show ?thesis using False c(1) m n1 [OF c(2)] n1 [OF c(3)]
      by (simp del: Iterate.simps)
  qed
next
  case (Compound ps)
  note ch = Compound_children_wf [OF Compound.prems(1)]
  from Compound.prems(1) have two: "2 \<le> length ps" by simp
  have NL: "NumLetters (Compound ps) = Some n"
    using Compound.prems(1) by (rule wf_len_NumLetters)
  define half where
    "half = go_div (foldl (\<lambda>sum p. wrap64 (sum + MaxPossibilities p)) 0 ps) 2"
  define k where "k = Compound_MakeChoice_loop half (length ps) 0 0 ps 1"
  from Compound_MakeChoice_loop_range [of half "length ps" 0 0 ps 1] two
  have k: "0 < k" "k < length ps" by (auto simp: k_def)
  from MakeCompound_Iterate [OF \<open>n < 25\<close>, of "take k ps"] obtain q1 where
    q1: "MakeCompound (take k ps) n = Some q1" "Iterate q1 = concat (map Iterate (take k ps))"
    by blast
  from MakeCompound_Iterate [OF \<open>n < 25\<close>, of "drop k ps"] obtain q2 where
    q2: "MakeCompound (drop k ps) n = Some q2" "Iterate q2 = concat (map Iterate (drop k ps))"
    by blast
  have mc: "MakeChoice (Compound ps) = Some \<lparr>Choice = q1, Remaining = q2\<rparr>"
    using two Compound.prems(3) NL q1(1) q2(1)
    by (simp add: Let_def half_def k_def del: NumLetters.simps MaxPossibilities.simps)
  have ne: "Iterate x \<noteq> []" if "x \<in> set ps" for x
    using wf_len_Iterate_nonempty [OF ch(1) [OF that] ch(2) [OF that]] .
  have ne1: "Iterate q1 \<noteq> []" unfolding q1(2)
    by (rule concat_map_Iterate_nonempty) (use k ne in \<open>auto dest: in_set_takeD\<close>)
  have ne2: "Iterate q2 \<noteq> []" unfolding q2(2)
    by (rule concat_map_Iterate_nonempty) (use k ne in \<open>auto dest: in_set_dropD\<close>)
  have "Iterate q1 @ Iterate q2 = Iterate (Compound ps)"
    unfolding q1(2) q2(2) by (simp flip: concat_append map_append)
  then have "mset (Iterate q1) + mset (Iterate q2) = mset (Iterate (Compound ps))"
    by (metis mset_append)
  then show ?case using mc ne1 ne2 by (simp del: Iterate.simps)
next
  case (Definite line)
  then show ?case by simp
qed

text \<open>
  C4. \<^verbatim>\<open>MaxPossibilities\<close> computes in \<^verbatim>\<open>int64\<close>, which wraps around. Where it cannot
  wrap, that is for a well-formed \<open>p\<close> of fewer than \<open>2 ^ 63\<close> lines, and
  \<^verbatim>\<open>MaxPossibilities() > 1\<close>, \<^verbatim>\<open>MakeChoice\<close> returns two values with
  \<^verbatim>\<open>MaxPossibilities() >= 1\<close> whose lines together are the lines of \<open>p\<close>, as a multiset.
\<close>

theorem MakeChoice_splits:
  assumes "well_formed p" and "1 < MaxPossibilities p" and "length (Iterate p) < 2 ^ 63"
  shows "\<exists>c. MakeChoice p = Some c
     \<and> 1 \<le> MaxPossibilities (Choice c) \<and> 1 \<le> MaxPossibilities (Remaining c)
     \<and> mset (Iterate (Choice c)) + mset (Iterate (Remaining c)) = mset (Iterate p)"
proof -
  from assms(1) obtain n where "NumLetters p = Some n"
    by (auto simp: well_formed_def split: option.splits)
  from well_formed_wf_len [OF assms(1) this] have wf: "wf_len n p" and n: "n < 25" by auto
  from MakeChoice_split [OF wf n assms(2,3)] obtain c where c: "MakeChoice p = Some c"
    "Iterate (Choice c) \<noteq> []" "Iterate (Remaining c) \<noteq> []"
    "mset (Iterate (Choice c)) + mset (Iterate (Remaining c)) = mset (Iterate p)"
    by blast
  from c(4) have "size (mset (Iterate (Choice c))) + size (mset (Iterate (Remaining c)))
      = size (mset (Iterate p))"
    by (metis size_union)
  then have sum: "length (Iterate (Choice c)) + length (Iterate (Remaining c)) = length (Iterate p)"
    by simp
  with assms(3) have small: "length (Iterate (Choice c)) < 2 ^ 63"
    "length (Iterate (Remaining c)) < 2 ^ 63" by linarith+
  from c(2,3) have "0 < length (Iterate (Choice c))" "0 < length (Iterate (Remaining c))"
    by auto
  with MaxPossibilities_exact [OF small(1)] MaxPossibilities_exact [OF small(2)]
  have "1 \<le> MaxPossibilities (Choice c)" "1 \<le> MaxPossibilities (Remaining c)" by linarith+
  with c(1,4) show ?thesis by blast
qed

theorem MakeChoice_splits_witness:
  "well_formed catDog \<and> 1 < MaxPossibilities catDog \<and> length (Iterate catDog) < 2 ^ 63
   \<and> MakeChoice catDog = Some \<lparr>Choice = Words [''cat'', ''cot'', ''car''] 3 [],
                                 Remaining = Words [''dog'', ''dot''] 2 []\<rparr>
   \<and> (\<exists>c. MakeChoice catDog = Some c
         \<and> 1 \<le> MaxPossibilities (Choice c) \<and> 1 \<le> MaxPossibilities (Remaining c)
         \<and> mset (Iterate (Choice c)) + mset (Iterate (Remaining c)) = mset (Iterate catDog))"
proof -
  have wf: "well_formed catDog" using well_formed_catDog by simp
  have mp: "1 < MaxPossibilities catDog" by (simp add: catDog_def wrap64_def)
  have len: "length (Iterate catDog) < 2 ^ 63" by (simp add: catDog_def)
  have v: "MakeChoice catDog = Some \<lparr>Choice = Words [''cat'', ''cot'', ''car''] 3 [],
                                 Remaining = Words [''dog'', ''dot''] 2 []\<rparr>"
    by (simp add: catDog_def wrap64_def go_div_def MakeCompound_single)
  from MakeChoice_splits [OF wf mp len] wf mp len v show ?thesis by simp
qed

text \<open>
  Where the count wraps, \<^verbatim>\<open>MaxPossibilities\<close> is no upper bound on the number of lines, and
  \<^verbatim>\<open>MakeChoice\<close> goes wrong with it. \<open>manyWords\<close> holds the 65536 four-letter words
  over \<^verbatim>\<open>a..p\<close>; four of them joined by blocks make \<open>2 ^ 64\<close> lines of 19 cells,
  a count that is 0 as an \<^verbatim>\<open>int64\<close>. The union of that value and two 19-letter words
  has \<^verbatim>\<open>MaxPossibilities() = 2\<close>, and \<^verbatim>\<open>MakeChoice\<close> returns the first child, whose
  \<^verbatim>\<open>MaxPossibilities()\<close> is 0, as the choice.
\<close>

definition hexWord :: "nat \<Rightarrow> string" where
  "hexWord i = map (\<lambda>k. char_of (97 + (i div 16 ^ k) mod 16)) [3, 2, 1, 0]"

definition manyWords :: PossibleLines where
  "manyWords = Words (map hexWord [0..<65536]) 65536 []"

definition manyLines :: PossibleLines where
  "manyLines = BlockBetween (BlockBetween manyWords manyWords) (BlockBetween manyWords manyWords)"

definition twoLong :: PossibleLines where
  "twoLong = Words [''aaaaaaaaaaaaaaaaaaa'', ''bbbbbbbbbbbbbbbbbbb''] 2 []"

lemma hexWord_ok: "length (hexWord i) = 4 \<and> lowercase (hexWord i)"
proof -
  have "(97 + d mod 16) mod 256 = 97 + d mod 16" for d :: nat
    by (rule mod_less) (use mod_less_divisor [of 16 d] in linarith)
  then have n: "(of_char (char_of (97 + d mod 16 :: nat)) :: nat) = 97 + d mod 16" for d
    by (simp only: of_char_of)
  have "(of_char c :: int) = int (of_char c)" for c
    by (simp add: of_char_def)
  with n have "(of_char (char_of (97 + d mod 16 :: nat)) :: int) = 97 + int (d mod 16)" for d
    by simp
  moreover have "d mod 16 \<le> 25" for d :: nat
    using mod_less_divisor [of 16 d] by linarith
  ultimately show ?thesis by (simp add: hexWord_def lowercase_def)
qed


lemma div_mod_16_eq: "(a :: nat) div 16 = b div 16 \<Longrightarrow> a mod 16 = b mod 16 \<Longrightarrow> a = b"
  by (metis div_mult_mod_eq)

lemma hexWord_inj:
  assumes i: "i < 65536" and j: "j < 65536" and eq: "hexWord i = hexWord j"
  shows "i = j"
proof -
  have dig: "a mod 16 = b mod 16"
    if "char_of (97 + a mod 16 :: nat) = char_of (97 + b mod 16 :: nat)" for a b
  proof -
    from that have "(of_char (char_of (97 + a mod 16 :: nat)) :: nat)
        = of_char (char_of (97 + b mod 16 :: nat))" by simp
    then have "(97 + a mod 16) mod 256 = (97 + b mod 16) mod 256"
      by (simp only: of_char_of)
    moreover have "(97 + d mod 16) mod 256 = 97 + d mod 16" for d :: nat
      by (rule mod_less) (use mod_less_divisor [of 16 d] in linarith)
    ultimately show ?thesis by simp
  qed
  from eq have c: "char_of (97 + (i div 4096) mod 16) = char_of (97 + (j div 4096) mod 16)"
    "char_of (97 + (i div 256) mod 16) = char_of (97 + (j div 256) mod 16)"
    "char_of (97 + (i div 16) mod 16) = char_of (97 + (j div 16) mod 16)"
    "char_of (97 + i mod 16) = char_of (97 + j mod 16)"
    by (simp_all add: hexWord_def)
  have d3: "(i div 4096) mod 16 = (j div 4096) mod 16" using c(1) by (rule dig)
  have d2: "(i div 256) mod 16 = (j div 256) mod 16" using c(2) by (rule dig)
  have d1: "(i div 16) mod 16 = (j div 16) mod 16" using c(3) by (rule dig)
  have d0: "i mod 16 = j mod 16" using c(4) by (rule dig)
  from i j have "i div 4096 < 16" "j div 4096 < 16" by (simp_all add: less_mult_imp_div_less)
  with d3 have e3: "i div 4096 = j div 4096" by simp
  have "(i div 256) div 16 = (j div 256) div 16"
    using e3 by (simp add: div_mult2_eq [symmetric])
  from div_mod_16_eq [OF this d2] have e2: "i div 256 = j div 256" .
  have "(i div 16) div 16 = (j div 16) div 16"
    using e2 by (simp add: div_mult2_eq [symmetric])
  from div_mod_16_eq [OF this d1] have e1: "i div 16 = j div 16" .
  from div_mod_16_eq [OF e1 d0] show ?thesis .
qed

lemma manyWords_distinct: "distinct (map hexWord [0..<65536])"
  by (auto simp: distinct_map inj_on_def dest: hexWord_inj)


lemma NumLetters_manyWords: "NumLetters manyWords = Some 4"
proof -
  have "[0..<65536] = 0 # [Suc 0..<65536]"
    by (rule upt_conv_Cons) simp
  then have "map hexWord [0..<65536] = hexWord 0 # map hexWord [Suc 0..<65536]"
    by (simp only: list.map)
  then show ?thesis by (simp only: manyWords_def NumLetters.simps hexWord_ok)
qed

lemma wf_manyWords: "wf_len 4 manyWords"
  by (simp add: manyWords_def list_all_iff hexWord_ok)


lemma MaxPossibilities_manyLines: "MaxPossibilities manyLines = 0"
  by (simp add: manyLines_def manyWords_def wrap64_def)

lemma wf_manyLines: "wf_len 19 manyLines \<and> NumLetters manyLines = Some 19"
  by (simp add: manyLines_def NumLetters_manyWords wf_manyWords)
     (simp add: manyWords_def)

lemma length_Iterate_manyLines: "length (Iterate manyLines) = 2 ^ 64"
proof -
  have "length (Iterate manyWords) = 65536"
    by (simp add: manyWords_def)
  then show ?thesis
    by (simp only: manyLines_def length_Iterate_BlockBetween) simp
qed

theorem MakeChoice_overflow_counterexample:
  "well_formed (Compound [manyLines, twoLong])
   \<and> 1 < MaxPossibilities (Compound [manyLines, twoLong])
   \<and> MakeChoice (Compound [manyLines, twoLong]) = Some \<lparr>Choice = manyLines, Remaining = twoLong\<rparr>
   \<and> \<not> 1 \<le> MaxPossibilities manyLines
   \<and> length (Iterate manyLines) = 2 ^ 64 \<and> MaxPossibilities manyLines = 0"
proof -
  have two: "wf_len 19 twoLong" "\<not> isImpossible twoLong" "\<not> isCompound twoLong"
    "MaxPossibilities twoLong = 2"
    by (simp_all add: twoLong_def lowercase_def)
  have many: "\<not> isImpossible manyLines" "\<not> isCompound manyLines"
    by (simp_all add: manyLines_def)
  have wf: "well_formed (Compound [manyLines, twoLong])"
    using two many wf_manyLines by (simp add: well_formed_def)
  have mp: "MaxPossibilities (Compound [manyLines, twoLong]) = 2"
    by (simp add: MaxPossibilities_manyLines two(4) wrap64_def)
  have mc: "MakeChoice (Compound [manyLines, twoLong])
      = Some \<lparr>Choice = manyLines, Remaining = twoLong\<rparr>"
    using wf_manyLines
    by (simp add: MaxPossibilities_manyLines two(4) wrap64_def go_div_def MakeCompound_single)
  from wf mp mc MaxPossibilities_manyLines length_Iterate_manyLines show ?thesis
    by (simp only: simp_thms) simp
qed

section \<open>Properties of the generator\<close>

subsection \<open>AllPossibleLines\<close>

text \<open>
  A sequence that is suspended is a prefix of what a larger bound gives; a sequence that has
  ended or thrown stays as it is.
\<close>

definition enum_le :: "'a enum \<Rightarrow> 'a enum \<Rightarrow> bool" where
  "enum_le e e' = (if snd e = Suspended then prefix (fst e) (fst e') else e = e')"

text \<open>A grid of size 7 with one common and one obscure word, both of three letters.\<close>

definition g7 :: Generator where
  "g7 = \<lparr>gridSize = 7, commonWords = [''cat''], obscureWords = [''dog'']\<rparr>"

lemma enum_le_refl: "enum_le e e"
  by (simp add: enum_le_def)

lemma enum_le_trans: "enum_le a b \<Longrightarrow> enum_le b c \<Longrightarrow> enum_le a c"
  by (auto simp add: enum_le_def split: if_splits)

lemma enum_le_Suspended: "enum_le ([], Suspended) e"
  by (simp add: enum_le_def)

lemma enum_append_Suspended: "snd a = Suspended \<Longrightarrow> enum_append a b = a"
  by (cases a) simp

lemma enum_append_Done: "snd a = Done \<Longrightarrow> enum_append a b = (fst a @ fst b, snd b)"
  by (cases a) simp

lemma enum_append_Threw: "snd a = Threw x \<Longrightarrow> enum_append a b = a"
  by (cases a) simp

lemma prefix_fst_enum_append: "prefix (fst a) (fst (enum_append a b))"
  by (cases a; cases "snd a") simp_all

lemma enum_append_mono:
  assumes "enum_le a a'" and "enum_le b b'"
  shows "enum_le (enum_append a b) (enum_append a' b')"
proof (cases "snd a")
  case Suspended
  then have "prefix (fst a) (fst a')"
    using assms(1) by (simp add: enum_le_def)
  then have "prefix (fst a) (fst (enum_append a' b'))"
    using prefix_fst_enum_append prefix_order.trans by blast
  then show ?thesis
    using Suspended by (simp add: enum_append_Suspended enum_le_def)
next
  case Done
  then have eq: "a' = a"
    using assms(1) by (simp add: enum_le_def)
  show ?thesis
    using assms(2) Done unfolding eq
    by (auto simp add: enum_append_Done enum_le_def split: if_splits)
next
  case (Threw x)
  then have eq: "a' = a"
    using assms(1) by (simp add: enum_le_def)
  show ?thesis
    using Threw unfolding eq by (simp add: enum_append_Threw enum_le_def)
qed

lemma enum_append_assoc:
  "enum_append (enum_append a b) c = enum_append a (enum_append b c)"
  by (cases a; cases "snd a"; cases b; cases "snd b") simp_all

lemma enum_append_Nil_Done: "enum_append ([], Done) e = e"
  by simp

lemma foreach_list_append:
  "foreach_list (xs @ ys) body = enum_append (foreach_list xs body) (foreach_list ys body)"
  by (induction xs) (simp_all add: enum_append_assoc)

lemma foreach_list_mono:
  assumes "\<And>x. enum_le (body x) (body' x)"
  shows "enum_le (foreach_list xs body) (foreach_list xs body')"
  by (induction xs) (simp_all add: enum_le_refl enum_append_mono assms)

lemma foreach_mono:
  assumes e: "enum_le e e'" and body: "\<And>x. enum_le (body x) (body' x)"
  shows "enum_le (foreach e body) (foreach e' body')"
proof (cases "snd e = Suspended")
  case True
  then obtain zs where zs: "fst e' = fst e @ zs"
    using e by (auto simp add: enum_le_def prefix_def)
  have "enum_le (enum_append (foreach_list (fst e) body) ([], Suspended))
          (enum_append (foreach_list (fst e) body')
             (enum_append (foreach_list zs body') ([], snd e')))"
    by (intro enum_append_mono foreach_list_mono body enum_le_Suspended)
  then show ?thesis
    using True by (simp add: foreach_def zs foreach_list_append enum_append_assoc)
next
  case False
  then have "e' = e"
    using e by (simp add: enum_le_def)
  then show ?thesis
    unfolding foreach_def
    by (simp add: enum_append_mono foreach_list_mono body enum_le_refl)
qed

lemma enum_le_if:
  "(c \<Longrightarrow> enum_le a a') \<Longrightarrow> (\<not> c \<Longrightarrow> enum_le b b') \<Longrightarrow> enum_le (if c then a else b) (if c then a' else b')"
  by simp

lemma AllPossibleLines_mono:
  "enum_le (AllPossibleLines g fuel maxLength) (AllPossibleLines g (Suc fuel) maxLength)"
proof (induction fuel arbitrary: maxLength)
  case 0
  show ?case
    by (simp only: AllPossibleLines.simps(1) enum_le_Suspended)
next
  case (Suc fuel)
  show ?case
    apply (subst AllPossibleLines.simps(2) [of g "Suc fuel" maxLength])
    apply (subst AllPossibleLines.simps(2) [of g fuel maxLength])
    apply (intro enum_le_if enum_append_mono foreach_mono foreach_list_mono enum_le_refl Suc.IH)
    apply (simp_all only: Let_def)
    apply (intro enum_le_if enum_append_mono foreach_mono foreach_list_mono enum_le_refl Suc.IH)
    done
qed

lemma AllPossibleLines_mono_add:
  "enum_le (AllPossibleLines g fuel maxLength) (AllPossibleLines g (k + fuel) maxLength)"
proof (induction k)
  case 0
  show ?case by (simp add: enum_le_refl)
next
  case (Suc k)
  then show ?case
    using AllPossibleLines_mono [of g "k + fuel" maxLength] enum_le_trans by fastforce
qed

lemma AllPossibleLines_g7_2:
  "AllPossibleLines g7 2 3 =
     ([\<lparr>Line_s = ''cat'', MaxLength = 3, NumLetters_s = 3, NumLettersOfCommonWords = 3\<rparr>,
       \<lparr>Line_s = ''dog'', MaxLength = 3, NumLetters_s = 3, NumLettersOfCommonWords = 0\<rparr>,
       \<lparr>Line_s = ''cat`cat'', MaxLength = 3, NumLetters_s = 6, NumLettersOfCommonWords = 6\<rparr>,
       \<lparr>Line_s = ''cat`dog'', MaxLength = 3, NumLetters_s = 6, NumLettersOfCommonWords = 3\<rparr>],
      Suspended)"
  by (simp add: g7_def numeral_2_eq_2 commonWordsByLength_def obscureWordsByLength_def
      wordsByLength_def words_of_def foreach_def BLOCKED_def)


lemma snd_foreach_list_Done:
  "(\<And>x. snd (body x) = Done) \<Longrightarrow> snd (foreach_list xs body) = Done"
  by (induction xs) (simp_all add: enum_append_Done)

lemma snd_foreach_Suspended:
  "snd e = Suspended \<Longrightarrow> (\<And>x. snd (body x) = Done) \<Longrightarrow> snd (foreach e body) = Suspended"
  by (simp add: foreach_def enum_append_Done snd_foreach_list_Done)

lemma snd_foreach_first_Suspended:
  "fst e = x # xs \<Longrightarrow> snd (body x) = Suspended \<Longrightarrow> snd (foreach e body) = Suspended"
  by (simp add: foreach_def enum_append_Suspended)

lemma AllPossibleLines_g7_Suspended:
  "snd (AllPossibleLines g7 fuel 3) = Suspended \<and> (0 < fuel \<longrightarrow> fst (AllPossibleLines g7 fuel 3) \<noteq> [])"
proof (induction fuel)
  case 0
  show ?case by simp
next
  case (Suc fuel)
  have words: "commonWordsByLength g7 3 = Some [''cat'']" "obscureWordsByLength g7 3 = Some [''dog'']"
    by (simp_all add: g7_def commonWordsByLength_def obscureWordsByLength_def wordsByLength_def)
  have size: "gridSize g7 = 7"
    by (simp add: g7_def)
  show ?case
  proof (cases fuel)
    case 0
    then show ?thesis
      by (simp add: words size words_of_def foreach_def)
  next
    case (Suc f)
    have two: "AllPossibleLines g7 fuel 2 = ([], Done)"
      by (simp add: Suc size)
    obtain x xs where first: "fst (AllPossibleLines g7 fuel 3) = x # xs"
      using Suc.IH Suc by (cases "fst (AllPossibleLines g7 fuel 3)") simp_all
    have inner: "snd (foreach (AllPossibleLines g7 fuel 3) (\<lambda>secondHalf. ([mk secondHalf], Done))) = Suspended" for mk :: "ScoredLine \<Rightarrow> ScoredLine"
      using Suc.IH by (intro snd_foreach_Suspended) simp_all
    have outer: "snd (foreach (AllPossibleLines g7 fuel 3)
                   (\<lambda>firstHalf. foreach (AllPossibleLines g7 fuel 3) (\<lambda>secondHalf. ([mk firstHalf secondHalf], Done))))
                 = Suspended" for mk :: "ScoredLine \<Rightarrow> ScoredLine \<Rightarrow> ScoredLine"
      using first by (rule snd_foreach_first_Suspended) (rule inner)
    show ?thesis
      by (simp add: words size words_of_def two foreach_def [of "([], Done)"] enum_append_Suspended outer)
  qed
qed

text \<open>
  In a grid of size 7 or more the loop over two-segment lines is not empty, and its halves
  have lengths \<^verbatim>\<open>i\<close> and \<^verbatim>\<open>gridSize - (i + 1)\<close> whatever \<^verbatim>\<open>maxLength\<close> is. With grid
  size 7, a call \<^verbatim>\<open>AllPossibleLines(3)\<close> would yield the two words and then the line
  \<^verbatim>\<open>cat`cat\<close> of seven cells, and the sequence would not end. \<^verbatim>\<open>GenerateGrid\<close> makes no
  such call.
\<close>

lemma AllPossibleLines_grid7:
  "map Line_s (take 3 (fst (AllPossibleLines g7 (fuel + 2) 3))) = [''cat'', ''dog'', ''cat`cat'']
   \<and> snd (AllPossibleLines g7 fuel 3) = Suspended"
proof -
  have "enum_le (AllPossibleLines g7 2 3) (AllPossibleLines g7 (fuel + 2) 3)"
    by (rule AllPossibleLines_mono_add)
  then obtain zs where "fst (AllPossibleLines g7 (fuel + 2) 3) = fst (AllPossibleLines g7 2 3) @ zs"
    by (auto simp add: enum_le_def AllPossibleLines_g7_2 prefix_def)
  then show ?thesis
    by (simp add: AllPossibleLines_g7_2 AllPossibleLines_g7_Suspended)
qed















subsection \<open>Prefilter and the propagation loop\<close>

lemma Where_opt_subseq: "Where_opt pred xs = Some ys \<Longrightarrow> subseq ys xs"
  by (induction xs arbitrary: ys) (auto simp add: bind_eq_Some_conv split: if_splits)

lemma Select_index_all2:
  assumes "\<And>x y v. f x y = Some v \<Longrightarrow> R v x"
  shows "Select_index f y xs = Some vs \<Longrightarrow> list_all2 R vs xs"
  by (induction xs arbitrary: y vs) (auto simp add: bind_eq_Some_conv assms)

lemma not_looser_refl: "not_looser s s"
  by (simp add: not_looser_def list.rel_refl)

lemma list_all2_subseq_trans:
  "list_all2 subseq xs ys \<Longrightarrow> list_all2 subseq ys zs \<Longrightarrow> list_all2 subseq xs zs"
  by (rule list_all2_trans [where ?P1.0 = subseq and ?P2.0 = subseq]) (auto intro: subseq_order.order_trans)

lemma not_looser_trans: "not_looser a b \<Longrightarrow> not_looser b c \<Longrightarrow> not_looser a c"
  by (auto simp add: not_looser_def intro: list_all2_subseq_trans)

lemma Prefilter_not_looser:
  assumes "Prefilter s d = Some s'"
  shows "not_looser s' s"
proof (cases "any_empty (if d = Horizontal then Across s else Down s)
              \<or> any_empty (if d = Horizontal then Down s else Across s)")
  case True
  then have "s' = s"
    using assms by (simp add: Prefilter_def Let_def)
  then show ?thesis
    by (simp add: not_looser_refl)
next
  case False
  then obtain available filtered where
    filtered: "Select_index
               (\<lambda>possibles y. Where_opt (\<lambda>line. line_available available y 0 (Line_s line)) possibles)
               0 (if d = Horizontal then Across s else Down s) = Some filtered"
    and s': "s' = (if d = Horizontal then s\<lparr>Across := filtered\<rparr> else s\<lparr>Down := filtered\<rparr>)"
    using assms by (auto simp add: Prefilter_def Let_def bind_eq_Some_conv)
  have "list_all2 subseq filtered (if d = Horizontal then Across s else Down s)"
    using filtered by (rule Select_index_all2 [rotated]) (rule Where_opt_subseq)
  then show ?thesis
    by (cases "d = Horizontal") (simp_all add: s' not_looser_def list.rel_refl)
qed

lemma Prefilter_loop_not_looser:
  "Prefilter_loop tries d s = Some s' \<Longrightarrow> not_looser s' s"
proof (induction tries d s rule: Prefilter_loop.induct)
  case (1 tries direction root)
  show ?case
  proof (cases "tries < 4")
    case False
    then show ?thesis
      using "1.prems" by (simp add: Prefilter_loop.simps [of tries] not_looser_refl)
  next
    case True
    then obtain newState changed where
      pre: "Prefilter root direction = Some newState"
      and ch: "Changed root newState = Some changed"
      and rest: "(if \<not> changed \<and> tries + 1 > 1 then Some root
                  else Prefilter_loop (tries + 1) (if direction = Vertical then Horizontal else Vertical) newState)
                 = Some s'"
      using "1.prems" by (subst (asm) Prefilter_loop.simps) (auto simp add: bind_eq_Some_conv)
    show ?thesis
    proof (cases "\<not> changed \<and> tries + 1 > 1")
      case True
      then show ?thesis
        using rest by (simp add: not_looser_refl)
    next
      case False
      then have "Prefilter_loop (tries + 1) (if direction = Vertical then Horizontal else Vertical) newState = Some s'"
        using rest by (simp split: if_splits)
      then have "not_looser s' newState"
        using "1.IH" [OF True pre ch False] by simp
      then show ?thesis
        using Prefilter_not_looser [OF pre] not_looser_trans by blast
    qed
  qed
qed


lemma GetOrAddDefault_total:
  assumes "x < size_gd av" "y < size_gd av"
  shows "\<exists>chars av'. GetOrAddDefault av (x, y) = Some (chars, av') \<and> size_gd av' = size_gd av
           \<and> (\<forall>kv. values_gd av kv \<noteq> None \<longrightarrow> values_gd av' kv \<noteq> None)"
  using assms by (cases "values_gd av (x, y)") (simp_all add: GetOrAddDefault_def in_grid_def)

lemma add_chars_total:
  assumes "x < size_gd av" "y + length arr \<le> size_gd av" "list_all (\<lambda>c. slot c \<noteq> None) arr"
  shows "\<exists>av'. add_chars av x y arr = Some av' \<and> size_gd av' = size_gd av
           \<and> (\<forall>kv. values_gd av kv \<noteq> None \<longrightarrow> values_gd av' kv \<noteq> None)
           \<and> (\<forall>j. y \<le> j \<and> j < y + length arr \<longrightarrow> values_gd av' (x, j) \<noteq> None)"
  using assms
proof (induction arr arbitrary: av y)
  case Nil
  then show ?case by auto
next
  case (Cons c arr)
  from Cons.prems obtain chars av1 where
    g: "GetOrAddDefault av (x, y) = Some (chars, av1)" and sz1: "size_gd av1 = size_gd av"
    and def1: "\<forall>kv. values_gd av kv \<noteq> None \<longrightarrow> values_gd av1 kv \<noteq> None"
    using GetOrAddDefault_total [of x av y] by auto
  from Cons.prems obtain chars' where a: "Add_cs chars c = Some chars'"
    by (auto simp add: Add_cs_def)
  define av2 where "av2 = av1\<lparr>values_gd := (values_gd av1)((x, y) \<mapsto> chars')\<rparr>"
  have sz2: "size_gd av2 = size_gd av"
    by (simp add: av2_def sz1)
  have def2: "\<forall>kv. values_gd av kv \<noteq> None \<longrightarrow> values_gd av2 kv \<noteq> None"
    using def1 by (simp add: av2_def)
  have here: "values_gd av2 (x, y) \<noteq> None"
    by (simp add: av2_def)
  from Cons.prems have "x < size_gd av2" "Suc y + length arr \<le> size_gd av2" "list_all (\<lambda>c. slot c \<noteq> None) arr"
    by (simp_all add: sz2)
  from Cons.IH [OF this] obtain av' where
    r: "add_chars av2 x (Suc y) arr = Some av'" and sz: "size_gd av' = size_gd av2"
    and d: "\<forall>kv. values_gd av2 kv \<noteq> None \<longrightarrow> values_gd av' kv \<noteq> None"
    and new: "\<forall>j. Suc y \<le> j \<and> j < Suc y + length arr \<longrightarrow> values_gd av' (x, j) \<noteq> None"
    by blast
  have "add_chars av x y (c # arr) = Some av'"
    using g a r by (simp add: av2_def)
  moreover have "\<forall>j. y \<le> j \<and> j < y + length (c # arr) \<longrightarrow> values_gd av' (x, j) \<noteq> None"
  proof (intro allI impI)
    fix j
    assume j: "y \<le> j \<and> j < y + length (c # arr)"
    show "values_gd av' (x, j) \<noteq> None"
    proof (cases "j = y")
      case True
      then show ?thesis using here d by blast
    next
      case False
      then show ?thesis using j new by simp
    qed
  qed
  ultimately show ?case
    using sz sz2 def2 d by auto
qed

lemma add_lines_total:
  assumes "x < size_gd av" "list_all (wf_line (size_gd av)) c"
  shows "\<exists>av'. add_lines av x c = Some av' \<and> size_gd av' = size_gd av
           \<and> (\<forall>kv. values_gd av kv \<noteq> None \<longrightarrow> values_gd av' kv \<noteq> None)
           \<and> (c \<noteq> [] \<longrightarrow> (\<forall>j < size_gd av. values_gd av' (x, j) \<noteq> None))"
  using assms
proof (induction c arbitrary: av)
  case Nil
  then show ?case by simp
next
  case (Cons line c)
  from Cons.prems have len: "length (Line_s line) = size_gd av"
    and chars: "list_all (\<lambda>c. slot c \<noteq> None) (Line_s line)"
    by (simp_all add: wf_line_def)
  from add_chars_total [of x av 0 "Line_s line"] Cons.prems(1) len chars
  obtain av1 where
    r1: "add_chars av x 0 (Line_s line) = Some av1" and sz1: "size_gd av1 = size_gd av"
    and d1: "\<forall>kv. values_gd av kv \<noteq> None \<longrightarrow> values_gd av1 kv \<noteq> None"
    and new1: "\<forall>j < size_gd av. values_gd av1 (x, j) \<noteq> None"
    by auto
  from Cons.prems have "x < size_gd av1" "list_all (wf_line (size_gd av1)) c"
    by (simp_all add: sz1)
  from Cons.IH [OF this] obtain av' where
    r: "add_lines av1 x c = Some av'" and sz: "size_gd av' = size_gd av1"
    and d: "\<forall>kv. values_gd av1 kv \<noteq> None \<longrightarrow> values_gd av' kv \<noteq> None"
    by blast
  show ?case
    using r1 r sz sz1 d1 d new1 by auto
qed

lemma add_entries_total:
  assumes "x + length constraint \<le> size_gd av"
    and "list_all (list_all (wf_line (size_gd av))) constraint"
    and "\<not> any_empty constraint"
  shows "\<exists>av'. add_entries av x constraint = Some av' \<and> size_gd av' = size_gd av
           \<and> (\<forall>kv. values_gd av kv \<noteq> None \<longrightarrow> values_gd av' kv \<noteq> None)
           \<and> (\<forall>i j. x \<le> i \<and> i < x + length constraint \<and> j < size_gd av \<longrightarrow> values_gd av' (i, j) \<noteq> None)"
  using assms
proof (induction constraint arbitrary: av x)
  case Nil
  then show ?case by auto
next
  case (Cons c constraint)
  from Cons.prems have x: "x < size_gd av" and wf: "list_all (wf_line (size_gd av)) c" and ne: "c \<noteq> []"
    by (simp_all add: any_empty_def)
  from add_lines_total [OF x wf] ne obtain av1 where
    r1: "add_lines av x c = Some av1" and sz1: "size_gd av1 = size_gd av"
    and d1: "\<forall>kv. values_gd av kv \<noteq> None \<longrightarrow> values_gd av1 kv \<noteq> None"
    and new1: "\<forall>j < size_gd av. values_gd av1 (x, j) \<noteq> None"
    by auto
  from Cons.prems have "Suc x + length constraint \<le> size_gd av1"
    "list_all (list_all (wf_line (size_gd av1))) constraint" "\<not> any_empty constraint"
    by (simp_all add: sz1 any_empty_def)
  from Cons.IH [OF this] obtain av' where
    r: "add_entries av1 (Suc x) constraint = Some av'" and sz: "size_gd av' = size_gd av1"
    and d: "\<forall>kv. values_gd av1 kv \<noteq> None \<longrightarrow> values_gd av' kv \<noteq> None"
    and new: "\<forall>i j. Suc x \<le> i \<and> i < Suc x + length constraint \<and> j < size_gd av1 \<longrightarrow> values_gd av' (i, j) \<noteq> None"
    by blast
  have "\<forall>i j. x \<le> i \<and> i < x + length (c # constraint) \<and> j < size_gd av \<longrightarrow> values_gd av' (i, j) \<noteq> None"
  proof (intro allI impI)
    fix i j
    assume ij: "x \<le> i \<and> i < x + length (c # constraint) \<and> j < size_gd av"
    show "values_gd av' (i, j) \<noteq> None"
    proof (cases "i = x")
      case True
      then show ?thesis using ij new1 d by blast
    next
      case False
      then show ?thesis using ij new sz1 by simp
    qed
  qed
  then show ?case
    using r1 r sz sz1 d1 d by auto
qed

lemma line_available_total:
  assumes "y < size_gd av" "x + length line \<le> size_gd av" "list_all (\<lambda>c. slot c \<noteq> None) line"
    and "\<forall>i j. i < size_gd av \<and> j < size_gd av \<longrightarrow> values_gd av (i, j) \<noteq> None"
  shows "line_available av y x line \<noteq> None"
  using assms
proof (induction line arbitrary: x)
  case Nil
  then show ?case by simp
next
  case (Cons c line)
  from Cons.prems have "x < size_gd av" "y < size_gd av"
    by simp_all
  with Cons.prems(4) obtain chars where "values_gd av (x, y) = Some chars"
    by blast
  with \<open>x < size_gd av\<close> \<open>y < size_gd av\<close> have it: "item av (x, y) = Some chars"
    by (simp add: item_def in_grid_def)
  from Cons.prems obtain b where co: "Contains_cs chars c = Some b"
    by (auto simp add: Contains_cs_def)
  from Cons.prems have "line_available av y (Suc x) line \<noteq> None"
    by (intro Cons.IH) simp_all
  then show ?case
    using it co by (cases b) auto
qed

lemma Where_opt_total:
  "list_all (\<lambda>x. pred x \<noteq> None) xs \<Longrightarrow> Where_opt pred xs \<noteq> None"
  by (induction xs) auto

lemma Select_index_total:
  "(\<And>i. i < length xs \<Longrightarrow> f (xs ! i) (y + i) \<noteq> None) \<Longrightarrow> Select_index f y xs \<noteq> None"
proof (induction xs arbitrary: y)
  case Nil
  show ?case by simp
next
  case (Cons x xs)
  from Cons.prems [of 0] have "f x y \<noteq> None" by simp
  moreover have "Select_index f (Suc y) xs \<noteq> None"
  proof (rule Cons.IH)
    fix i assume "i < length xs"
    then show "f (xs ! i) (Suc y + i) \<noteq> None"
      using Cons.prems [of "Suc i"] by simp
  qed
  ultimately show ?case by auto
qed


lemma subseq_set_subset: "subseq xs ys \<Longrightarrow> set xs \<subseteq> set ys"
proof
  fix x
  assume "subseq xs ys" and "x \<in> set xs"
  then obtain y where "y \<in> set ys" and "x = y"
    by (rule list_emb_set)
  then show "x \<in> set ys"
    by simp
qed

lemma wf_axis_subseq:
  assumes "list_all2 subseq axis' axis" "wf_axis n axis"
  shows "wf_axis n axis'"
proof -
  have len: "length axis' = length axis"
    using assms(1) by (rule list_all2_lengthD)
  have "list_all (wf_line n) (axis' ! i)" if "i < length axis'" for i
  proof -
    have "subseq (axis' ! i) (axis ! i)"
      using assms(1) that by (simp add: list_all2_nthD)
    then have "set (axis' ! i) \<subseteq> set (axis ! i)"
      by (rule subseq_set_subset)
    moreover have "list_all (wf_line n) (axis ! i)"
      using assms(2) that len by (simp add: wf_axis_def list_all_length)
    ultimately show ?thesis
      by (auto simp add: list_all_iff)
  qed
  then show ?thesis
    using assms(2) len by (simp add: wf_axis_def list_all_length)
qed

lemma wf_state_not_looser: "not_looser s' s \<Longrightarrow> wf_state n s \<Longrightarrow> wf_state n s'"
  by (auto simp add: not_looser_def wf_state_def intro: wf_axis_subseq)

lemma Prefilter_Some:
  assumes "wf_state n s"
  shows "Prefilter s d \<noteq> None"
proof (cases "any_empty (if d = Horizontal then Across s else Down s)
              \<or> any_empty (if d = Horizontal then Down s else Across s)")
  case True
  then show ?thesis
    by (simp add: Prefilter_def Let_def)
next
  case False
  define toFilter where "toFilter = (if d = Horizontal then Across s else Down s)"
  define constraint where "constraint = (if d = Horizontal then Down s else Across s)"
  have wfc: "wf_axis n constraint" and wft: "wf_axis n toFilter" and n: "length (Across s) = n"
    using assms by (simp_all add: wf_state_def wf_axis_def constraint_def toFilter_def)
  have ne: "\<not> any_empty constraint"
    using False by (simp add: constraint_def)
  have "size_gd (GridDictionary_new n) = n"
    by (simp add: GridDictionary_new_def)
  with add_entries_total [of 0 constraint "GridDictionary_new n"] wfc ne
  obtain available where
    av: "add_entries (GridDictionary_new n) 0 constraint = Some available"
    and sz: "size_gd available = n"
    and cells: "\<forall>i j. i < n \<and> j < n \<longrightarrow> values_gd available (i, j) \<noteq> None"
    by (auto simp add: wf_axis_def)
  have "Select_index
          (\<lambda>possibles y. Where_opt (\<lambda>line. line_available available y 0 (Line_s line)) possibles)
          0 toFilter \<noteq> None"
  proof (rule Select_index_total)
    fix i
    assume i: "i < length toFilter"
    then have "list_all (wf_line n) (toFilter ! i)" and "i < n"
      using wft by (simp_all add: wf_axis_def list_all_length)
    have "line_available available (0 + i) 0 (Line_s line) \<noteq> None" if "line \<in> set (toFilter ! i)" for line
    proof (rule line_available_total)
      have wl: "wf_line n line"
        using \<open>list_all (wf_line n) (toFilter ! i)\<close> that by (simp add: list_all_iff)
      show "0 + i < size_gd available"
        using \<open>i < n\<close> sz by simp
      show "0 + length (Line_s line) \<le> size_gd available"
        using wl sz by (simp add: wf_line_def)
      show "list_all (\<lambda>c. slot c \<noteq> None) (Line_s line)"
        using wl by (simp add: wf_line_def)
      show "\<forall>i j. i < size_gd available \<and> j < size_gd available \<longrightarrow> values_gd available (i, j) \<noteq> None"
        using cells sz by simp
    qed
    then have "list_all (\<lambda>line. line_available available (0 + i) 0 (Line_s line) \<noteq> None) (toFilter ! i)"
      by (simp add: list_all_iff)
    then show "Where_opt (\<lambda>line. line_available available (0 + i) 0 (Line_s line)) (toFilter ! i) \<noteq> None"
      by (rule Where_opt_total)
  qed
  then show ?thesis
    using False av n by (auto simp add: Prefilter_def Let_def toFilter_def constraint_def)
qed

lemma nth_opt_Some: "i < length xs \<Longrightarrow> nth_opt xs i = Some (xs ! i)"
  by (simp add: nth_opt_def)

lemma Changed_loop_Some:
  assumes "\<forall>i \<in> set ns. i < length (Down bef) \<and> i < length (Down aft)
             \<and> i < length (Across bef) \<and> i < length (Across aft)"
  shows "Changed_loop bef aft ns \<noteq> None"
  using assms by (induction ns) (auto simp add: nth_opt_Some)

lemma Changed_Some:
  assumes "wf_state n bef" "wf_state n aft"
  shows "Changed bef aft \<noteq> None"
  unfolding Changed_def using assms
  by (intro Changed_loop_Some) (simp add: wf_state_def wf_axis_def)

lemma Prefilter_loop_Some:
  "wf_state n s \<Longrightarrow> Prefilter_loop tries d s \<noteq> None"
proof (induction tries d s rule: Prefilter_loop.induct)
  case (1 tries direction root)
  show ?case
  proof (cases "tries < 4")
    case False
    then show ?thesis
      by (simp add: Prefilter_loop.simps [of tries])
  next
    case True
    obtain newState where pre: "Prefilter root direction = Some newState"
      using Prefilter_Some [OF "1.prems"] by blast
    have wf': "wf_state n newState"
      using Prefilter_not_looser [OF pre] "1.prems" by (rule wf_state_not_looser)
    obtain changed where ch: "Changed root newState = Some changed"
      using Changed_Some [OF "1.prems" wf'] by blast
    show ?thesis
    proof (cases "\<not> changed \<and> tries + 1 > 1")
      case stop: True
      then show ?thesis
        using True pre ch by (subst Prefilter_loop.simps) simp
    next
      case False
      have "Prefilter_loop (tries + 1) (if direction = Vertical then Horizontal else Vertical) newState \<noteq> None"
        using "1.IH" [OF True pre ch False wf'] .
      then show ?thesis
        using True pre ch False by (subst Prefilter_loop.simps) auto
    qed
  qed
qed

text \<open>
  C3. Whenever \<^verbatim>\<open>Prefilter\<close> or the propagation loop returns a state, every entry of it,
  of both axes, is a subsequence of the matching entry of the input: it holds no line the
  input entry does not hold, in the same order. On a square grid whose lines have the grid's
  length and characters from \<^verbatim>\<open>`\<close> to \<^verbatim>\<open>z\<close>, both return a state.
\<close>

theorem Prefilter_monotone:
  "(\<forall>s'. Prefilter s d = Some s' \<longrightarrow> not_looser s' s)
   \<and> (\<forall>s'. Prefilter_loop tries d s = Some s' \<longrightarrow> not_looser s' s)
   \<and> (wf_state n s \<longrightarrow> Prefilter s d \<noteq> None \<and> Prefilter_loop tries d s \<noteq> None)"
  using Prefilter_not_looser Prefilter_loop_not_looser Prefilter_Some Prefilter_loop_Some
  by blast

theorem Prefilter_monotone_witness:
  "wf_state 2 st1
   \<and> (\<exists>s'. Prefilter st1 Horizontal = Some s' \<and> not_looser s' st1
          \<and> map (map Line_s) (Across s') = [[''ab'', ''ac''], [''de'', ''df'']])
   \<and> (\<exists>s'. Prefilter_loop 0 Horizontal st1 = Some s' \<and> not_looser s' st1)"
proof -
  have wf: "wf_state 2 st1"
    by (simp add: wf_state_def wf_axis_def wf_line_def st1_def sl_def slot_def)
  have "Prefilter st1 Horizontal =
          Some (st1\<lparr>Across := [[sl ''ab'', sl ''ac''], [sl ''de'', sl ''df'']]\<rparr>)"
    by (simp add: Prefilter_def st1_def sl_def any_empty_def GridDictionary_new_def
        GetOrAddDefault_def in_grid_def item_def Add_cs_def Contains_cs_def slot_def CharSet_cs_new_def)
  with Prefilter_monotone [of st1 Horizontal 0 2] wf show ?thesis
    by (auto simp add: sl_def)
qed

end
